theory Spec2Isabelle
  imports Main "HOL-Library.AList" "HOL-Library.Multiset" "HOL-Library.Char_ord"
    "HOL-Library.List_Lexorder"
begin

section \<open>Thin-CI: data model\<close>

text \<open>
  The planning engine of \<^verbatim>\<open>internal/thinci\<close>: change detection (detector.go), the
  planner (planner.go), the shared types (types.go), the local executor, and the provider
  loader of the thin-ci command (cmd/thinci.go). Go values of
  static type \<^verbatim>\<open>any\<close> are a datatype with one constructor per dynamic type the code
  inspects with a type assertion or prints. A Go map that is only read or overlaid is a
  partial function; a map whose iteration order reaches the output is an association list
  together with an explicit iteration order.

  A finite float64 is held as strconv reads it before printing: its sign, the digits of
  the shortest decimal that identifies it (no leading and no trailing zero; none at all
  for zero) and the position of the decimal point, counted from the left of the first
  digit. So 1800000 has the digits \<^verbatim>\<open>18\<close> and the point at 7, and 0.5 has the digit
  \<^verbatim>\<open>5\<close> and the point at 0. Every number of a document read by \<^verbatim>\<open>json.Unmarshal\<close>
  into an \<^verbatim>\<open>any\<close> is a float64; a YAML document also yields ints.
\<close>

datatype float64 = Float64 bool string int | Infinity bool | NaN

datatype any =
    VNil
  | VBool bool
  | VInt int
  | VFloat float64
  | VStr string
  | VStrs "string list"
  | VList "any list"
  | VMap "(string \<times> any) list"
  | VSteps "ActionStep list"
and ActionStep =
    ActionStep (step_Name: string) (step_Command: string) (step_Inputs: "(string \<times> any) list")

text \<open>models.Component, models.Relationship, models.Repository (the fields the core reads).\<close>

record Component =
  comp_Name :: string
  comp_Type :: string
  comp_Spec :: "(string \<times> any) list"

record Relationship =
  rel_From :: string
  rel_To :: string
  rel_Type :: string

record Repository =
  Components :: "Component list"
  Relationships :: "Relationship list"

text \<open>
  ProviderAction, ThinCIConfig, ProviderMetadata (types.go) and the registry; the fields
  the planner never reads (Description, Order, PreSteps, PostSteps, Outputs, Ordering) are
  left out.
\<close>

record ProviderAction =
  pa_Name :: string
  pa_Inputs :: "string \<rightharpoonup> any"

record ThinCIConfig =
  Actions :: "ProviderAction list"
  Defaults :: "string \<rightharpoonup> any"

record ProviderMetadata =
  pm_Name :: string
  pm_Version :: string
  ThinCI :: ThinCIConfig

type_synonym ProviderRegistry = "string \<rightharpoonup> ProviderMetadata"

text \<open>ComponentChange, DependencyNode, PlanRequest.\<close>

record ComponentChange =
  cc_ComponentName :: string
  cc_Provider :: string
  cc_ComponentType :: string
  cc_Reason :: string
  cc_AffectedPaths :: "string list"

record DependencyNode =
  dn_ComponentName :: string
  dn_Provider :: string
  dn_Actions :: "string list"
  dn_Dependencies :: "string list"

record PlanRequest =
  BaseRef :: string
  HeadRef :: string
  ChangedFiles :: "string list"
  RepositoryPath :: string
  IntentFiles :: "string list"
  Target :: string
  Mode :: string
  ChangedOnly :: bool
  Environment :: string
  ProviderOverrides :: "string \<rightharpoonup> (string \<rightharpoonup> any)"

text \<open>
  Job, JobMetadata, JobCondition, Plan and PlanMetadata as planner.go builds them (the
  struct revision of types.go).
\<close>

record JobMetadata =
  RunsOn :: string
  Permissions :: "string list"
  md_Environment :: "string \<rightharpoonup> string"
  Timeout :: int
  ContinueOnError :: bool

record JobCondition =
  ChangedPaths :: "string list"
  Always :: bool

record Job =
  job_ID :: string
  job_Component :: string
  job_Provider :: string
  job_Action :: string
  job_Inputs :: "string \<rightharpoonup> any"
  job_DependsOn :: "string list"
  job_Metadata :: JobMetadata
  job_Condition :: "JobCondition option"

record PlanMetadata =
  meta_Repository :: string
  meta_BaseRef :: string
  meta_HeadRef :: string
  meta_ChangedFiles :: "string list"
  meta_Timestamp :: string
  meta_Environment :: string

record Plan =
  plan_Target :: string
  plan_Mode :: string
  plan_Metadata :: PlanMetadata
  plan_Jobs :: "Job list"

text \<open>Errors: \<^verbatim>\<open>fmt.Errorf\<close> with and without a wrapped cause (\<^verbatim>\<open>%w\<close>).\<close>

datatype error = Msg string | Wrapped string error

fun error_text :: "error \<Rightarrow> string" where
  "error_text (Msg s) = s"
| "error_text (Wrapped p e) = p @ error_text e"

section \<open>The standard library and the runtime\<close>

text \<open>
  What the engine takes from outside the repository: \<^verbatim>\<open>filepath.Join\<close> and
  \<^verbatim>\<open>filepath.Match\<close> (false where the library reports no match or a bad pattern), the
  order in which \<^verbatim>\<open>range\<close> visits the keys of the change map and of the in-degree map
  (given the keys in insertion order), and the clock.
\<close>

record runtime =
  filepath_Join :: "string list \<Rightarrow> string"
  filepath_Match :: "string \<Rightarrow> string \<Rightarrow> bool"
  range_changes :: "string list \<Rightarrow> string list"
  range_inDegree :: "string list \<Rightarrow> string list"
  time_Now :: string

text \<open>A range over a map visits every key once.\<close>

definition visits_each_key_once :: "(string list \<Rightarrow> string list) \<Rightarrow> bool" where
  "visits_each_key_once order = (\<forall>ks. distinct ks \<longrightarrow> mset (order ks) = mset ks)"

section \<open>Strings\<close>

definition HasPrefix :: "string \<Rightarrow> string \<Rightarrow> bool" where
  "HasPrefix s prefix = (length s \<ge> length prefix \<and> take (length prefix) s = prefix)"

definition HasSuffix :: "string \<Rightarrow> string \<Rightarrow> bool" where
  "HasSuffix s suffix = (length s \<ge> length suffix \<and> drop (length s - length suffix) s = suffix)"

text \<open>\<^verbatim>\<open>strings.Split(s, sep)\<close> for a separator of one byte: never empty.\<close>

primrec Split :: "string \<Rightarrow> char \<Rightarrow> string list" where
  "Split [] sep = [[]]"
| "Split (c # cs) sep =
     (if c = sep then [] # Split cs sep
      else case Split cs sep of
             [] \<Rightarrow> [[c]]
           | part # parts \<Rightarrow> (c # part) # parts)"

section \<open>Change detector\<close>

definition extractProvider :: "string \<Rightarrow> string" where
  "extractProvider componentType =
     (let parts = Split componentType (CHR ''.'')
      in case parts of part # _ \<Rightarrow> part | [] \<Rightarrow> [])"

definition pathMatches :: "runtime \<Rightarrow> string \<Rightarrow> string \<Rightarrow> bool" where
  "pathMatches rt file pattern =
     (if file = pattern then True
      else if HasPrefix file (pattern @ ''/'') then True
      else filepath_Match rt pattern file)"

definition getConventionBasedPath :: "runtime \<Rightarrow> string \<Rightarrow> string \<Rightarrow> string" where
  "getConventionBasedPath rt componentName provider =
     (if provider = ''terraform'' then filepath_Join rt [''terraform'', componentName]
      else if provider = ''helm'' then filepath_Join rt [''helm'', componentName]
      else filepath_Join rt [provider, componentName])"

text \<open>
  getComponentPaths. A type assertion on a missing key fails like one on a value of
  another type, so a nil spec reads as the empty one.
\<close>

definition getComponentPaths :: "runtime \<Rightarrow> Component \<Rightarrow> string \<Rightarrow> string list" where
  "getComponentPaths rt component provider =
     (let spec = comp_Spec component;
          paths = [];
          paths =
            (if provider = ''terraform'' then
               (let paths =
                      (case map_of spec ''module'' of
                         Some (VMap module) \<Rightarrow>
                           (case map_of module ''source'' of
                              Some (VStr source) \<Rightarrow>
                                if \<not> HasPrefix source ''terraform-'' then paths @ [source]
                                else paths
                            | _ \<Rightarrow> paths)
                       | _ \<Rightarrow> paths)
                in case map_of spec ''path'' of
                     Some (VStr path) \<Rightarrow> paths @ [path]
                   | _ \<Rightarrow> paths)
             else if provider = ''helm'' then
               (let paths =
                      (case map_of spec ''chart'' of
                         Some (VMap chart) \<Rightarrow>
                           (case map_of chart ''path'' of
                              Some (VStr path) \<Rightarrow> paths @ [path]
                            | _ \<Rightarrow> paths)
                       | _ \<Rightarrow> paths);
                    paths =
                      (case map_of spec ''chartPath'' of
                         Some (VStr chartPath) \<Rightarrow> paths @ [chartPath]
                       | _ \<Rightarrow> paths)
                in case map_of spec ''valuesPath'' of
                     Some (VStr valuesPath) \<Rightarrow> paths @ [valuesPath]
                   | _ \<Rightarrow> paths)
             else paths)
      in if length paths = 0 then
           (let conventionPath = getConventionBasedPath rt (comp_Name component) provider
            in if conventionPath \<noteq> [] then paths @ [conventionPath] else paths)
         else paths)"

definition getProviderPaths :: "runtime \<Rightarrow> string \<Rightarrow> string list" where
  "getProviderPaths rt provider =
     [filepath_Join rt [''providers'', provider, ''provider.yaml''],
      filepath_Join rt [''providers'', provider, ''schema.yaml''],
      filepath_Join rt [''.sourceplane'', ''providers'', provider]]"

definition getSharedModulePaths :: "Component \<Rightarrow> string \<Rightarrow> string list" where
  "getSharedModulePaths component provider =
     (let paths = [] in
      if provider = ''terraform'' then
        (let paths =
               (case map_of (comp_Spec component) ''module'' of
                  Some (VMap module) \<Rightarrow>
                    (case map_of module ''source'' of
                       Some (VStr source) \<Rightarrow>
                         if HasPrefix source ''./'' \<or> HasPrefix source ''../''
                         then paths @ [source] else paths
                     | _ \<Rightarrow> paths)
                | _ \<Rightarrow> paths)
         in paths @ [''terraform/modules''])
      else if provider = ''helm'' then paths @ [''helm/charts'']
      else paths)"

text \<open>
  The loops of checkComponentAffected over the changed files; the state is the pair of
  affectedPaths and reason. The first loop stops at the first intent file.
\<close>

primrec intent_files_loop :: "string list \<Rightarrow> string list \<times> string \<Rightarrow> string list \<times> string" where
  "intent_files_loop [] st = st"
| "intent_files_loop (file # files) st =
     (if HasSuffix file ''intent.yaml'' \<or> HasSuffix file ''sourceplane.yaml''
      then (fst st @ [file], ''Intent definition changed'')
      else intent_files_loop files st)"

primrec patterns_loop ::
  "runtime \<Rightarrow> string \<Rightarrow> string \<Rightarrow> string list \<Rightarrow> string list \<times> string \<Rightarrow> string list \<times> string" where
  "patterns_loop rt why file [] st = st"
| "patterns_loop rt why file (pattern # patterns) st =
     patterns_loop rt why file patterns
       (if pathMatches rt file pattern
        then (fst st @ [file], if snd st = [] then why else snd st)
        else st)"

primrec files_loop ::
  "runtime \<Rightarrow> string \<Rightarrow> string list \<Rightarrow> string list \<Rightarrow> string list \<times> string \<Rightarrow> string list \<times> string" where
  "files_loop rt why patterns [] st = st"
| "files_loop rt why patterns (file # files) st =
     files_loop rt why patterns files (patterns_loop rt why file patterns st)"

definition checkComponentAffected :: "runtime \<Rightarrow> Component \<Rightarrow> string list \<Rightarrow> ComponentChange option" where
  "checkComponentAffected rt component changedFiles =
     (let provider = extractProvider (comp_Type component);
          st = intent_files_loop changedFiles ([], []);
          componentPaths = getComponentPaths rt component provider;
          st = files_loop rt ''Component files changed'' componentPaths changedFiles st;
          providerPaths = getProviderPaths rt provider;
          st = files_loop rt ''Provider configuration changed'' providerPaths changedFiles st;
          sharedModulePaths = getSharedModulePaths component provider;
          st = files_loop rt ''Shared module changed'' sharedModulePaths changedFiles st;
          affectedPaths = fst st;
          reason = snd st
      in if length affectedPaths = 0 then None
         else Some \<lparr>cc_ComponentName = comp_Name component,
                    cc_Provider = provider,
                    cc_ComponentType = comp_Type component,
                    cc_Reason = reason,
                    cc_AffectedPaths = affectedPaths\<rparr>)"

text \<open>
  DetectChanges. The change map keeps its entries in insertion order; the result lists
  its values in the order the range visits the keys.
\<close>

primrec components_loop ::
  "runtime \<Rightarrow> string list \<Rightarrow> Component list \<Rightarrow> (string \<times> ComponentChange) list \<Rightarrow>
   (string \<times> ComponentChange) list" where
  "components_loop rt changedFiles [] changes = changes"
| "components_loop rt changedFiles (component # components) changes =
     components_loop rt changedFiles components
       (case checkComponentAffected rt component changedFiles of
          None \<Rightarrow> changes
        | Some change \<Rightarrow>
            (case map_of changes (comp_Name component) of
               Some existing \<Rightarrow>
                 AList.update (comp_Name component)
                   (existing\<lparr>cc_AffectedPaths := cc_AffectedPaths existing @ cc_AffectedPaths change\<rparr>)
                   changes
             | None \<Rightarrow> AList.update (comp_Name component) change changes))"

primrec intents_loop ::
  "runtime \<Rightarrow> string list \<Rightarrow> Repository list \<Rightarrow> (string \<times> ComponentChange) list \<Rightarrow>
   (string \<times> ComponentChange) list" where
  "intents_loop rt changedFiles [] changes = changes"
| "intents_loop rt changedFiles (intent # intents) changes =
     intents_loop rt changedFiles intents
       (components_loop rt changedFiles (Components intent) changes)"

definition DetectChanges :: "runtime \<Rightarrow> Repository list \<Rightarrow> string list \<Rightarrow> ComponentChange list" where
  "DetectChanges rt intents changedFiles =
     (let changes = intents_loop rt changedFiles intents []
      in List.map_filter (map_of changes) (range_changes rt (map fst changes)))"

section \<open>Planner: action expansion\<close>

text \<open>hasAction: the loop over the provider's actions, returning at the first match.\<close>

primrec hasAction :: "ProviderAction list \<Rightarrow> string \<Rightarrow> bool" where
  "hasAction [] name = False"
| "hasAction (action # actions) name =
     (if pa_Name action = name then True else hasAction actions name)"

text \<open>\<^verbatim>\<open>actions = append(actions, name)\<close> guarded by hasAction.\<close>

definition append_if_supported ::
  "ProviderAction list \<Rightarrow> string \<Rightarrow> string list \<Rightarrow> string list" where
  "append_if_supported supportedActions name actions =
     (if hasAction supportedActions name then actions @ [name] else actions)"

definition determineActions :: "string \<Rightarrow> ProviderMetadata \<Rightarrow> string list" where
  "determineActions mode provider =
     (let actions = [];
          supportedActions = Actions (ThinCI provider)
      in if mode = ''plan'' then
           append_if_supported supportedActions ''plan''
             (append_if_supported supportedActions ''validate'' actions)
         else if mode = ''apply'' then
           append_if_supported supportedActions ''apply''
             (append_if_supported supportedActions ''plan''
               (append_if_supported supportedActions ''validate'' actions))
         else if mode = ''destroy'' then
           append_if_supported supportedActions ''destroy'' actions
         else actions)"

section \<open>Planner: expansion\<close>

primrec find_in_components :: "string \<Rightarrow> Component list \<Rightarrow> Component option" where
  "find_in_components name [] = None"
| "find_in_components name (c # cs) =
     (if comp_Name c = name then Some c else find_in_components name cs)"

primrec findComponent :: "string \<Rightarrow> Repository list \<Rightarrow> Component option" where
  "findComponent name [] = None"
| "findComponent name (intent # intents) =
     (case find_in_components name (Components intent) of
        Some c \<Rightarrow> Some c
      | None \<Rightarrow> findComponent name intents)"

primrec relationships_loop :: "string \<Rightarrow> Relationship list \<Rightarrow> string list \<Rightarrow> string list" where
  "relationships_loop name [] dependencies = dependencies"
| "relationships_loop name (rel # rels) dependencies =
     relationships_loop name rels
       (if rel_From rel = name \<and> (rel_Type rel = ''depends_on'' \<or> rel_Type rel = ''uses'')
        then dependencies @ [rel_To rel] else dependencies)"

primrec intent_relationships_loop :: "string \<Rightarrow> Repository list \<Rightarrow> string list \<Rightarrow> string list" where
  "intent_relationships_loop name [] dependencies = dependencies"
| "intent_relationships_loop name (intent # intents) dependencies =
     intent_relationships_loop name intents
       (relationships_loop name (Relationships intent) dependencies)"

primrec targets_loop :: "any list \<Rightarrow> string list \<Rightarrow> string list" where
  "targets_loop [] dependencies = dependencies"
| "targets_loop (relInterface # rest) dependencies =
     targets_loop rest
       (case relInterface of
          VMap rel \<Rightarrow>
            (case map_of rel ''target'' of
               Some (VStr target) \<Rightarrow> dependencies @ [target]
             | _ \<Rightarrow> dependencies)
        | _ \<Rightarrow> dependencies)"

definition extractDependencies :: "Component \<Rightarrow> Repository list \<Rightarrow> string list" where
  "extractDependencies component intents =
     (let dependencies = intent_relationships_loop (comp_Name component) intents []
      in case map_of (comp_Spec component) ''relationships'' of
           Some (VList compRels) \<Rightarrow> targets_loop compRels dependencies
         | _ \<Rightarrow> dependencies)"

definition quoted :: "string \<Rightarrow> string" where
  "quoted s = [CHR 0x27] @ s @ [CHR 0x27]"

definition GetProvider_registry :: "ProviderRegistry \<Rightarrow> string \<Rightarrow> error + ProviderMetadata" where
  "GetProvider_registry registry name =
     (case registry name of
        None \<Rightarrow> Inl (Msg (''provider '' @ quoted name @ '' not registered''))
      | Some provider \<Rightarrow> Inr provider)"

primrec expand_loop ::
  "ProviderRegistry \<Rightarrow> Repository list \<Rightarrow> PlanRequest \<Rightarrow> ComponentChange list \<Rightarrow>
   DependencyNode list \<Rightarrow> error + DependencyNode list" where
  "expand_loop registry intents req [] nodes = Inr nodes"
| "expand_loop registry intents req (change # changes) nodes =
     (case GetProvider_registry registry (cc_Provider change) of
        Inl err \<Rightarrow>
          Inl (Wrapped (''provider '' @ quoted (cc_Provider change) @ '' not found: '') err)
      | Inr providerMeta \<Rightarrow>
          (case findComponent (cc_ComponentName change) intents of
             None \<Rightarrow>
               Inl (Msg (''component '' @ quoted (cc_ComponentName change)
                         @ '' not found in intent''))
           | Some component \<Rightarrow>
               expand_loop registry intents req changes
                 (nodes @ [\<lparr>dn_ComponentName = cc_ComponentName change,
                            dn_Provider = cc_Provider change,
                            dn_Actions = determineActions (Mode req) providerMeta,
                            dn_Dependencies = extractDependencies component intents\<rparr>])))"

definition expandComponents ::
  "ProviderRegistry \<Rightarrow> ComponentChange list \<Rightarrow> Repository list \<Rightarrow> PlanRequest \<Rightarrow>
   error + DependencyNode list" where
  "expandComponents registry changes intents req = expand_loop registry intents req changes []"

section \<open>Planner: dependency graph\<close>

text \<open>
  The three maps of buildDependencyGraph are association lists in insertion order; reading
  an absent key gives the zero value of the element type.
\<close>

definition neighbours_of :: "(string \<times> string list) list \<Rightarrow> string \<Rightarrow> string list" where
  "neighbours_of graph name = (case map_of graph name of Some ns \<Rightarrow> ns | None \<Rightarrow> [])"

definition degree_of :: "(string \<times> int) list \<Rightarrow> string \<Rightarrow> int" where
  "degree_of inDegree name = (case map_of inDegree name of Some d \<Rightarrow> d | None \<Rightarrow> 0)"

definition node_of :: "(string \<times> DependencyNode) list \<Rightarrow> string \<Rightarrow> DependencyNode" where
  "node_of nodeMap name =
     (case map_of nodeMap name of
        Some node \<Rightarrow> node
      | None \<Rightarrow> \<lparr>dn_ComponentName = [], dn_Provider = [], dn_Actions = [], dn_Dependencies = []\<rparr>)"

record graph_state =
  gs_graph :: "(string \<times> string list) list"
  gs_inDegree :: "(string \<times> int) list"
  gs_nodeMap :: "(string \<times> DependencyNode) list"

primrec init_loop :: "DependencyNode list \<Rightarrow> graph_state \<Rightarrow> graph_state" where
  "init_loop [] st = st"
| "init_loop (node # nodes) st =
     init_loop nodes
       \<lparr>gs_graph = AList.update (dn_ComponentName node) [] (gs_graph st),
        gs_inDegree = AList.update (dn_ComponentName node) 0 (gs_inDegree st),
        gs_nodeMap = AList.update (dn_ComponentName node) node (gs_nodeMap st)\<rparr>"

primrec deps_loop :: "string \<Rightarrow> string list \<Rightarrow> graph_state \<Rightarrow> graph_state" where
  "deps_loop name [] st = st"
| "deps_loop name (dep # deps) st =
     deps_loop name deps
       (if map_of (gs_nodeMap st) dep \<noteq> None then
          st\<lparr>gs_graph := AList.update dep (neighbours_of (gs_graph st) dep @ [name]) (gs_graph st),
             gs_inDegree := AList.update name (degree_of (gs_inDegree st) name + 1) (gs_inDegree st)\<rparr>
        else st)"

primrec edges_loop :: "DependencyNode list \<Rightarrow> graph_state \<Rightarrow> graph_state" where
  "edges_loop [] st = st"
| "edges_loop (node # nodes) st =
     edges_loop nodes (deps_loop (dn_ComponentName node) (dn_Dependencies node) st)"

text \<open>The queue of Kahn's algorithm starts with the names of in-degree 0, as the range visits them.\<close>

definition seed_queue :: "runtime \<Rightarrow> (string \<times> int) list \<Rightarrow> string list" where
  "seed_queue rt inDegree =
     filter (\<lambda>name. map_of inDegree name = Some 0) (range_inDegree rt (map fst inDegree))"

text \<open>Processing the neighbours of the dequeued node; the state is the in-degree map and the queue.\<close>

primrec neighbours_loop ::
  "string list \<Rightarrow> (string \<times> int) list \<times> string list \<Rightarrow> (string \<times> int) list \<times> string list" where
  "neighbours_loop [] st = st"
| "neighbours_loop (neighbor # rest) st =
     neighbours_loop rest
       (let inDegree = AList.update neighbor (degree_of (fst st) neighbor - 1) (fst st)
        in (inDegree, if degree_of inDegree neighbor = 0 then snd st @ [neighbor] else snd st))"

definition positive_entries :: "(string \<times> int) list \<Rightarrow> nat" where
  "positive_entries inDegree = length (filter (\<lambda>kv. snd kv > 0) inDegree)"

lemma degree_of_update: "degree_of (AList.update k v m) k' = (if k' = k then v else degree_of m k')"
  by (simp add: degree_of_def update_conv')

lemma positive_entries_update:
  "positive_entries (AList.update n (degree_of d n - 1) d) + (if degree_of d n = 1 then 1 else 0)
     \<le> positive_entries d"
proof (induction d)
  case Nil
  then show ?case by (simp add: positive_entries_def degree_of_def)
next
  case (Cons kv d)
  obtain k v where kv: "kv = (k, v)" by (cases kv)
  show ?case
  proof (cases "k = n")
    case True
    then show ?thesis by (simp add: kv positive_entries_def degree_of_def)
  next
    case False
    then have "degree_of (kv # d) n = degree_of d n" by (simp add: kv degree_of_def)
    then show ?thesis using Cons.IH False by (simp add: kv positive_entries_def)
  qed
qed

lemma neighbours_loop_measure:
  "length (snd (neighbours_loop ns st)) + positive_entries (fst (neighbours_loop ns st))
     \<le> length (snd st) + positive_entries (fst st)"
proof (induction ns arbitrary: st)
  case Nil
  then show ?case by simp
next
  case (Cons n ns)
  let ?d = "AList.update n (degree_of (fst st) n - 1) (fst st)"
  let ?st = "(?d, if degree_of ?d n = 0 then snd st @ [n] else snd st)"
  have "length (snd ?st) + positive_entries (fst ?st) \<le> length (snd st) + positive_entries (fst st)"
    using positive_entries_update [of n "fst st"] by (auto simp: degree_of_update)
  moreover have "length (snd (neighbours_loop ns ?st)) + positive_entries (fst (neighbours_loop ns ?st))
      \<le> length (snd ?st) + positive_entries (fst ?st)"
    by (rule Cons.IH)
  ultimately show ?case by (simp add: Let_def)
qed

function kahn_loop ::
  "(string \<times> string list) list \<Rightarrow> (string \<times> DependencyNode) list \<Rightarrow> string list \<Rightarrow>
   DependencyNode list \<Rightarrow> (string \<times> int) list \<Rightarrow> DependencyNode list" where
  "kahn_loop graph nodeMap [] sortedNodes inDegree = sortedNodes"
| "kahn_loop graph nodeMap (current # queue) sortedNodes inDegree =
     (let st = neighbours_loop (neighbours_of graph current) (inDegree, queue)
      in kahn_loop graph nodeMap (snd st) (sortedNodes @ [node_of nodeMap current]) (fst st))"
  by pat_completeness auto
termination
proof (relation "measure (\<lambda>(g, m, q, s, d). length q + positive_entries d)", goal_cases)
  case 1
  then show ?case by simp
next
  case (2 graph nodeMap current queue sortedNodes inDegree st)
  then show ?case
    using neighbours_loop_measure [of "neighbours_of graph current" "(inDegree, queue)"] by simp
qed

definition buildDependencyGraph :: "runtime \<Rightarrow> DependencyNode list \<Rightarrow> error + DependencyNode list" where
  "buildDependencyGraph rt nodes =
     (let st = init_loop nodes \<lparr>gs_graph = [], gs_inDegree = [], gs_nodeMap = []\<rparr>;
          st = edges_loop nodes st;
          queue = seed_queue rt (gs_inDegree st);
          sortedNodes = kahn_loop (gs_graph st) (gs_nodeMap st) queue [] (gs_inDegree st)
      in if length sortedNodes \<noteq> length nodes
         then Inl (Msg ''circular dependency detected in component graph'')
         else Inr sortedNodes)"

section \<open>Planner: job emission\<close>

text \<open>findNode and findProviderAction return the first entry with the name, or nil.\<close>

primrec findNode :: "string \<Rightarrow> DependencyNode list \<Rightarrow> DependencyNode option" where
  "findNode name [] = None"
| "findNode name (node # nodes) =
     (if dn_ComponentName node = name then Some node else findNode name nodes)"

primrec find_action :: "ProviderAction list \<Rightarrow> string \<Rightarrow> ProviderAction option" where
  "find_action [] actionName = None"
| "find_action (action # actions) actionName =
     (if pa_Name action = actionName then Some action else find_action actions actionName)"

definition findProviderAction :: "ProviderMetadata \<Rightarrow> string \<Rightarrow> ProviderAction option" where
  "findProviderAction provider actionName = find_action (Actions (ThinCI provider)) actionName"

text \<open>
  buildJobInputs. Each \<^verbatim>\<open>for k, v := range m { inputs[k] = v }\<close> overlays \<open>m\<close> on
  \<open>inputs\<close>; a nil map behaves as the empty one.
\<close>

definition buildJobInputs ::
  "DependencyNode \<Rightarrow> ProviderMetadata \<Rightarrow> PlanRequest \<Rightarrow> (string \<rightharpoonup> any)" where
  "buildJobInputs node provider req =
     (let inputs = Map.empty;
          inputs = inputs(''component'' \<mapsto> VStr (dn_ComponentName node));
          inputs = inputs ++ Defaults (ThinCI provider);
          inputs = (if Environment req \<noteq> []
                    then inputs(''environment'' \<mapsto> VStr (Environment req)) else inputs);
          inputs = (case ProviderOverrides req (dn_Provider node) of
                      Some overrides \<Rightarrow> inputs ++ overrides
                    | None \<Rightarrow> inputs)
      in inputs)"

text \<open>\<^verbatim>\<open>if _, exists := inputs[k]; !exists { inputs[k] = v }\<close> for every entry of \<open>extra\<close>.\<close>

definition backfill :: "(string \<rightharpoonup> any) \<Rightarrow> (string \<rightharpoonup> any) \<Rightarrow> (string \<rightharpoonup> any)" where
  "backfill inputs extra = (\<lambda>k. case inputs k of Some v \<Rightarrow> Some v | None \<Rightarrow> extra k)"

definition job_inputs ::
  "DependencyNode \<Rightarrow> ProviderMetadata \<Rightarrow> PlanRequest \<Rightarrow> string \<Rightarrow> (string \<rightharpoonup> any)" where
  "job_inputs node providerMeta req action =
     (let providerAction = findProviderAction providerMeta action;
          inputs = buildJobInputs node providerMeta req
      in case providerAction of
           Some pa \<Rightarrow> backfill inputs (pa_Inputs pa)
         | None \<Rightarrow> inputs)"

definition createJobMetadata :: "string \<Rightarrow> DependencyNode \<Rightarrow> string \<Rightarrow> JobMetadata" where
  "createJobMetadata target node action =
     (let metadata = \<lparr>RunsOn = [], Permissions = [],
            md_Environment = [''SP_COMPONENT'' \<mapsto> dn_ComponentName node,
                              ''SP_PROVIDER'' \<mapsto> dn_Provider node,
                              ''SP_ACTION'' \<mapsto> action],
            Timeout = 0, ContinueOnError = False\<rparr>
      in if target = ''github'' then
           metadata\<lparr>RunsOn := ''ubuntu-latest'', Permissions := [''id-token'', ''contents''],
                    Timeout := 30\<rparr>
         else if target = ''gitlab'' then
           metadata\<lparr>RunsOn := ''docker'', Timeout := 30\<rparr>
         else metadata)"

text \<open>\<^verbatim>\<open>fmt.Sprintf("%s-%s", component, action)\<close>.\<close>

definition job_id :: "string \<Rightarrow> string \<Rightarrow> string" where
  "job_id component action = component @ ''-'' @ action"

text \<open>
  The dependencies of a first action: for every declared dependency, in order, the
  last-action job of the node found under that name, provided it has an action.
\<close>

primrec first_action_deps :: "DependencyNode list \<Rightarrow> string list \<Rightarrow> string list \<Rightarrow> string list" where
  "first_action_deps nodes [] deps = deps"
| "first_action_deps nodes (depComp # rest) deps =
     first_action_deps nodes rest
       (case findNode depComp nodes of
          Some depNode \<Rightarrow>
            if length (dn_Actions depNode) > 0
            then deps @ [job_id depComp (dn_Actions depNode ! (length (dn_Actions depNode) - 1))]
            else deps
        | None \<Rightarrow> deps)"

definition job_deps :: "DependencyNode list \<Rightarrow> DependencyNode \<Rightarrow> nat \<Rightarrow> string list" where
  "job_deps nodes node actionIdx =
     (if actionIdx > 0
      then [job_id (dn_ComponentName node) (dn_Actions node ! (actionIdx - 1))]
      else first_action_deps nodes (dn_Dependencies node) [])"

definition make_job ::
  "ProviderMetadata \<Rightarrow> DependencyNode list \<Rightarrow> PlanRequest \<Rightarrow> DependencyNode \<Rightarrow> nat \<Rightarrow> string \<Rightarrow> Job" where
  "make_job providerMeta nodes req node actionIdx action =
     \<lparr>job_ID = job_id (dn_ComponentName node) action,
      job_Component = dn_ComponentName node,
      job_Provider = dn_Provider node,
      job_Action = action,
      job_Inputs = job_inputs node providerMeta req action,
      job_DependsOn = job_deps nodes node actionIdx,
      job_Metadata = createJobMetadata (Target req) node action,
      job_Condition = None\<rparr>"

text \<open>The inner loop of generateJobs over \<^verbatim>\<open>node.Actions\<close>, from index \<open>actionIdx\<close> on.\<close>

primrec action_loop ::
  "ProviderMetadata \<Rightarrow> DependencyNode list \<Rightarrow> PlanRequest \<Rightarrow> DependencyNode \<Rightarrow> nat \<Rightarrow>
   string list \<Rightarrow> Job list \<Rightarrow> Job list" where
  "action_loop providerMeta nodes req node actionIdx [] jobs = jobs"
| "action_loop providerMeta nodes req node actionIdx (action # rest) jobs =
     action_loop providerMeta nodes req node (Suc actionIdx) rest
       (jobs @ [make_job providerMeta nodes req node actionIdx action])"

text \<open>The outer loop: a node whose provider is not registered is skipped.\<close>

primrec node_loop ::
  "ProviderRegistry \<Rightarrow> DependencyNode list \<Rightarrow> PlanRequest \<Rightarrow> DependencyNode list \<Rightarrow>
   Job list \<Rightarrow> Job list" where
  "node_loop registry nodes req [] jobs = jobs"
| "node_loop registry nodes req (node # rest) jobs =
     node_loop registry nodes req rest
       (case registry (dn_Provider node) of
          None \<Rightarrow> jobs
        | Some providerMeta \<Rightarrow>
            action_loop providerMeta nodes req node 0 (dn_Actions node) jobs)"

definition generateJobs :: "ProviderRegistry \<Rightarrow> DependencyNode list \<Rightarrow> PlanRequest \<Rightarrow> Job list" where
  "generateJobs registry nodes req = node_loop registry nodes req nodes []"


section \<open>Planner: GeneratePlan\<close>

definition plan_metadata :: "runtime \<Rightarrow> PlanRequest \<Rightarrow> PlanMetadata" where
  "plan_metadata rt req =
     \<lparr>meta_Repository = RepositoryPath req, meta_BaseRef = BaseRef req,
      meta_HeadRef = HeadRef req, meta_ChangedFiles = ChangedFiles req,
      meta_Timestamp = time_Now rt, meta_Environment = Environment req\<rparr>"

definition createEmptyPlan :: "runtime \<Rightarrow> PlanRequest \<Rightarrow> Plan" where
  "createEmptyPlan rt req =
     \<lparr>plan_Target = Target req, plan_Mode = Mode req,
      plan_Metadata = plan_metadata rt req, plan_Jobs = []\<rparr>"

text \<open>GeneratePlan. DetectChanges never returns an error, so its error branch is left out.\<close>

definition GeneratePlan ::
  "runtime \<Rightarrow> ProviderRegistry \<Rightarrow> PlanRequest \<Rightarrow> Repository list \<Rightarrow> error + Plan" where
  "GeneratePlan rt registry req intents =
     (let changes = DetectChanges rt intents (ChangedFiles req)
      in if ChangedOnly req \<and> length changes = 0 then Inr (createEmptyPlan rt req)
         else
           (case expandComponents registry changes intents req of
              Inl err \<Rightarrow> Inl (Wrapped ''component expansion failed: '' err)
            | Inr nodes \<Rightarrow>
                (case buildDependencyGraph rt nodes of
                   Inl err \<Rightarrow> Inl (Wrapped ''dependency graph construction failed: '' err)
                 | Inr sortedNodes \<Rightarrow>
                     Inr \<lparr>plan_Target = Target req, plan_Mode = Mode req,
                          plan_Metadata = plan_metadata rt req,
                          plan_Jobs = generateJobs registry sortedNodes req\<rparr>)))"

section \<open>Executor\<close>

text \<open>
  The executor reads jobs of the map revision of the Job type,
  \<^verbatim>\<open>type Job map[string]any\<close>, as deserialised from a plan.
\<close>

type_synonym JobMap = "string \<rightharpoonup> any"

definition GetID :: "JobMap \<Rightarrow> string" where
  "GetID j = (case j ''id'' of Some (VStr s) \<Rightarrow> s | _ \<Rightarrow> [])"

definition GetComponent :: "JobMap \<Rightarrow> string" where
  "GetComponent j = (case j ''component'' of Some (VStr c) \<Rightarrow> c | _ \<Rightarrow> [])"

definition GetProvider :: "JobMap \<Rightarrow> string" where
  "GetProvider j = (case j ''provider'' of Some (VStr prov) \<Rightarrow> prov | _ \<Rightarrow> [])"

definition GetAction :: "JobMap \<Rightarrow> string" where
  "GetAction j = (case j ''action'' of Some (VStr action) \<Rightarrow> action | _ \<Rightarrow> [])"

text \<open>The elements of a \<^verbatim>\<open>[]interface{}\<close> that are strings, in order.\<close>

primrec strings_of :: "any list \<Rightarrow> string list \<Rightarrow> string list" where
  "strings_of [] acc = acc"
| "strings_of (x # xs) acc =
     strings_of xs (case x of VStr s \<Rightarrow> acc @ [s] | _ \<Rightarrow> acc)"

definition GetDependsOn :: "JobMap \<Rightarrow> string list" where
  "GetDependsOn j =
     (case j ''dependsOn'' of
        Some (VStrs deps) \<Rightarrow> deps
      | Some (VList depsInterface) \<Rightarrow> strings_of depsInterface []
      | _ \<Rightarrow> [])"

definition getString :: "(string \<times> any) list \<Rightarrow> string \<Rightarrow> string" where
  "getString m key = (case map_of m key of Some (VStr v) \<Rightarrow> v | _ \<Rightarrow> [])"

primrec steps_of :: "any list \<Rightarrow> ActionStep list \<Rightarrow> ActionStep list" where
  "steps_of [] steps = steps"
| "steps_of (stepRaw # rest) steps =
     steps_of rest
       (case stepRaw of
          VMap stepMap \<Rightarrow>
            steps @ [ActionStep (getString stepMap ''name'') (getString stepMap ''command'')
                      (case map_of stepMap ''inputs'' of
                         Some (VMap inputsMap) \<Rightarrow> inputsMap
                       | _ \<Rightarrow> [])]
        | _ \<Rightarrow> steps)"

definition extractSteps :: "JobMap \<Rightarrow> string \<Rightarrow> ActionStep list" where
  "extractSteps job fieldName =
     (case job fieldName of
        Some (VSteps v) \<Rightarrow> v
      | Some (VList v) \<Rightarrow> steps_of v []
      | _ \<Rightarrow> [])"

definition extractCommands :: "JobMap \<Rightarrow> string \<Rightarrow> string list" where
  "extractCommands job fieldName =
     (case job fieldName of
        Some (VStrs v) \<Rightarrow> v
      | Some (VList v) \<Rightarrow> strings_of v []
      | _ \<Rightarrow> [])"

definition extractInputs :: "JobMap \<Rightarrow> string \<Rightarrow> (string \<rightharpoonup> any)" where
  "extractInputs job fieldName =
     (case job fieldName of
        Some (VMap inputsMap) \<Rightarrow> map_of inputsMap
      | _ \<Rightarrow> Map.empty)"

text \<open>
  \<^verbatim>\<open>fmt.Sprintf("%v", value)\<close> of the standard library, for the values of the datatype:
  decimal integers, \<^verbatim>\<open><nil>\<close>, space-separated elements in brackets, and maps with their
  keys sorted. A float64 is printed as \<^verbatim>\<open>%g\<close> with the shortest precision
  (strconv.FormatFloat): all its digits, in the exponent form \<^verbatim>\<open>d.ddde+xx\<close> (fmtE) when the
  decimal exponent is below -4 or at least 6, and in the plain form (fmtF) otherwise.
\<close>

fun show_nat :: "nat \<Rightarrow> string" where
  "show_nat n =
     (if n < 10 then [''0123456789'' ! n]
      else show_nat (n div 10) @ [''0123456789'' ! (n mod 10)])"

definition show_int :: "int \<Rightarrow> string" where
  "show_int i = (if i < 0 then ''-'' @ show_nat (nat (- i)) else show_nat (nat i))"

primrec join_sp :: "string list \<Rightarrow> string" where
  "join_sp [] = []"
| "join_sp (s # ss) = (if ss = [] then s else s @ '' '' @ join_sp ss)"

definition show_entries :: "(string \<times> string) list \<Rightarrow> string" where
  "show_entries kvs =
     ''map['' @ join_sp (map (\<lambda>(k, s). k @ '':'' @ s) (sort_key fst kvs)) @ '']''"

definition fmtE :: "bool \<Rightarrow> string \<Rightarrow> int \<Rightarrow> string" where
  "fmtE neg digs dp =
     (let exp = (if digs = [] then 0 else dp - 1)
      in (if neg then ''-'' else [])
         @ [if digs = [] then CHR ''0'' else hd digs]
         @ (if length digs > 1 then ''.'' @ tl digs else [])
         @ ''e'' @ (if exp < 0 then ''-'' else ''+'')
         @ (if \<bar>exp\<bar> < 10 then ''0'' else []) @ show_nat (nat \<bar>exp\<bar>))"

definition fmtF :: "bool \<Rightarrow> string \<Rightarrow> int \<Rightarrow> string" where
  "fmtF neg digs dp =
     (let prec = max (int (length digs) - dp) 0
      in (if neg then ''-'' else [])
         @ (if dp > 0 then take (nat dp) digs @ replicate (nat dp - length digs) (CHR ''0'')
            else ''0'')
         @ (if prec > 0
            then ''.'' @ map (\<lambda>i. let j = dp + int i
                                   in if 0 \<le> j \<and> j < int (length digs) then digs ! nat j
                                      else CHR ''0'')
                           [0..<nat prec]
            else []))"

definition fmt_float64 :: "float64 \<Rightarrow> string" where
  "fmt_float64 f =
     (case f of
        NaN \<Rightarrow> ''NaN''
      | Infinity neg \<Rightarrow> (if neg then ''-Inf'' else ''+Inf'')
      | Float64 neg digs dp \<Rightarrow>
          (let exp = dp - 1
           in if exp < - 4 \<or> exp \<ge> 6 then fmtE neg digs dp else fmtF neg digs dp))"

primrec fmt_v :: "any \<Rightarrow> string" and fmt_step :: "ActionStep \<Rightarrow> string" where
  "fmt_v VNil = ''<nil>''"
| "fmt_v (VBool b) = (if b then ''true'' else ''false'')"
| "fmt_v (VInt i) = show_int i"
| "fmt_v (VFloat f) = fmt_float64 f"
| "fmt_v (VStr s) = s"
| "fmt_v (VStrs ss) = ''['' @ join_sp ss @ '']''"
| "fmt_v (VList vs) = ''['' @ join_sp (map fmt_v vs) @ '']''"
| "fmt_v (VMap kvs) = show_entries (map (map_prod id fmt_v) kvs)"
| "fmt_v (VSteps steps) = ''['' @ join_sp (map fmt_step steps) @ '']''"
| "fmt_step (ActionStep name command inputs) =
     ''{'' @ name @ '' '' @ command @ '' '' @ show_entries (map (map_prod id fmt_v) inputs) @ ''}''"

text \<open>
  buildTemplateContext: the core fields, then every input stringified, then the defaults
  for the keys still absent.
\<close>

definition set_default :: "string \<Rightarrow> string \<Rightarrow> (string \<rightharpoonup> string) \<Rightarrow> (string \<rightharpoonup> string)" where
  "set_default key v context = (case context key of Some _ \<Rightarrow> context | None \<Rightarrow> context(key \<mapsto> v))"

definition buildTemplateContext :: "JobMap \<Rightarrow> (string \<rightharpoonup> any) \<Rightarrow> (string \<rightharpoonup> string)" where
  "buildTemplateContext job inputs =
     (let context = Map.empty;
          context = context(''id'' \<mapsto> GetID job);
          context = context(''component'' \<mapsto> GetComponent job);
          context = context(''provider'' \<mapsto> GetProvider job);
          context = context(''action'' \<mapsto> GetAction job);
          context = (\<lambda>key. case inputs key of Some v \<Rightarrow> Some (fmt_v v) | None \<Rightarrow> context key);
          context = set_default ''releaseName'' (GetComponent job) context;
          context = set_default ''namespace'' ''default'' context;
          context = set_default ''chartPath'' ''.'' context;
          context = set_default ''valuesPath'' ''values.yaml'' context;
          context = set_default ''timeout'' ''10m'' context
      in context)"

text \<open>
  Modelled from the spec: the template engine is the standard library's text/template, which
  is not part of the repository. The model covers the actions the specification requires,
  \<^verbatim>\<open>{{.key}}\<close> with optional blanks around the field, looked up in the context; an absent
  key prints \<^verbatim>\<open><no value>\<close>. An unclosed action is an error, and so is, in this model, every
  action of another form.
\<close>

definition is_ident_char :: "char \<Rightarrow> bool" where
  "is_ident_char c =
     (c \<in> set ''abcdefghijklmnopqrstuvwxyzABCDEFGHIJKLMNOPQRSTUVWXYZ_0123456789'')"

definition trim_blanks :: "string \<Rightarrow> string" where
  "trim_blanks s = rev (dropWhile (\<lambda>c. c = CHR '' '') (rev (dropWhile (\<lambda>c. c = CHR '' '') s)))"

definition field_of :: "string \<Rightarrow> string option" where
  "field_of body =
     (case trim_blanks body of
        [] \<Rightarrow> None
      | c # name \<Rightarrow>
          if c = CHR ''.'' \<and> name \<noteq> [] \<and> list_all is_ident_char name
             \<and> hd name \<notin> set ''0123456789''
          then Some name else None)"

fun render :: "(string \<rightharpoonup> string) \<Rightarrow> string option \<Rightarrow> string \<Rightarrow> error + string" where
  "render context None [] = Inr []"
| "render context (Some body) [] = Inl (Msg ''template: command: unclosed action'')"
| "render context None [c] = Inr [c]"
| "render context (Some body) [c] = Inl (Msg ''template: command: unclosed action'')"
| "render context None (c # d # cs) =
     (if c = CHR ''{'' \<and> d = CHR ''{'' then render context (Some []) cs
      else case render context None (d # cs) of
             Inl err \<Rightarrow> Inl err
           | Inr out \<Rightarrow> Inr (c # out))"
| "render context (Some body) (c # d # cs) =
     (if c = CHR ''}'' \<and> d = CHR ''}'' then
        (case field_of body of
           None \<Rightarrow> Inl (Msg ''template: command: unsupported action'')
         | Some key \<Rightarrow>
             (case render context None cs of
                Inl err \<Rightarrow> Inl err
              | Inr out \<Rightarrow>
                  Inr ((case context key of Some v \<Rightarrow> v | None \<Rightarrow> ''<no value>'') @ out)))
      else render context (Some (body @ [c])) (d # cs))"

definition resolveTemplate :: "string \<Rightarrow> (string \<rightharpoonup> string) \<Rightarrow> error + string" where
  "resolveTemplate templateStr context = render context None templateStr"

text \<open>
  The executor and the operating system. \<open>sh spawned cmd\<close> is what running
  \<^verbatim>\<open>sh -c cmd\<close> reports after the commands \<open>spawned\<close>: nothing on success, or the exit
  code and the error of \<^verbatim>\<open>cmd.Run\<close>. Every function returns the commands spawned so far
  with its error; log output is not modelled.
\<close>

record Executor =
  verbose :: bool
  dryRun :: bool

type_synonym shell = "string list \<Rightarrow> string \<Rightarrow> (int \<times> error) option"

definition runCommand :: "Executor \<Rightarrow> shell \<Rightarrow> string list \<Rightarrow> string \<Rightarrow> error option" where
  "runCommand e sh spawned cmdStr =
     (case sh spawned cmdStr of
        None \<Rightarrow> None
      | Some (code, err) \<Rightarrow>
          if verbose e then Some (Wrapped ''command failed: '' err)
          else Some (Wrapped (''command failed with exit code '' @ show_int code @ '': '') err))"

primrec executeSteps ::
  "Executor \<Rightarrow> shell \<Rightarrow> (string \<rightharpoonup> string) \<Rightarrow> ActionStep list \<Rightarrow> string list \<Rightarrow>
   string list \<times> error option" where
  "executeSteps e sh context [] spawned = (spawned, None)"
| "executeSteps e sh context (step # rest) spawned =
     (case resolveTemplate (step_Command step) context of
        Inl err \<Rightarrow>
          (spawned, Some (Wrapped (''failed to resolve template in step ''
                                   @ [CHR 0x27] @ step_Name step @ [CHR 0x27] @ '': '') err))
      | Inr command \<Rightarrow>
          if \<not> dryRun e then
            (case runCommand e sh spawned command of
               Some err \<Rightarrow>
                 (spawned @ [command],
                  Some (Wrapped (''step '' @ [CHR 0x27] @ step_Name step @ [CHR 0x27]
                                 @ '' failed: '') err))
             | None \<Rightarrow> executeSteps e sh context rest (spawned @ [command]))
          else executeSteps e sh context rest spawned)"

primrec executeCommands ::
  "Executor \<Rightarrow> shell \<Rightarrow> (string \<rightharpoonup> string) \<Rightarrow> string list \<Rightarrow> string list \<Rightarrow>
   string list \<times> error option" where
  "executeCommands e sh context [] spawned = (spawned, None)"
| "executeCommands e sh context (cmdTemplate # rest) spawned =
     (case resolveTemplate cmdTemplate context of
        Inl err \<Rightarrow> (spawned, Some (Wrapped ''failed to resolve template in command: '' err))
      | Inr command \<Rightarrow>
          if \<not> dryRun e then
            (case runCommand e sh spawned command of
               Some err \<Rightarrow> (spawned @ [command], Some (Wrapped ''command failed: '' err))
             | None \<Rightarrow> executeCommands e sh context rest (spawned @ [command]))
          else executeCommands e sh context rest spawned)"

definition ExecuteJob :: "Executor \<Rightarrow> shell \<Rightarrow> JobMap \<Rightarrow> string list \<times> error option" where
  "ExecuteJob e sh job =
     (let preSteps = extractSteps job ''preSteps'';
          commands = extractCommands job ''commands'';
          postSteps = extractSteps job ''postSteps'';
          inputs = extractInputs job ''inputs'';
          context = buildTemplateContext job inputs;
          (spawned, err) =
            (if length preSteps > 0 then executeSteps e sh context preSteps [] else ([], None))
      in case err of
           Some err \<Rightarrow> (spawned, Some (Wrapped ''pre-steps failed: '' err))
         | None \<Rightarrow>
             (let (spawned, err) =
                    (if length commands > 0 then executeCommands e sh context commands spawned
                     else (spawned, None))
              in case err of
                   Some err \<Rightarrow> (spawned, Some (Wrapped ''commands failed: '' err))
                 | None \<Rightarrow>
                     (let (spawned, err) =
                            (if length postSteps > 0
                             then executeSteps e sh context postSteps spawned
                             else (spawned, None))
                      in case err of
                           Some err \<Rightarrow> (spawned, Some (Wrapped ''post-steps failed: '' err))
                         | None \<Rightarrow> (spawned, None))))"

section \<open>The thin-ci command: provider registry\<close>






section \<open>Vocabulary of the properties\<close>

text \<open>
  The inputs of a job in the order the specification gives: defaults, then the component
  name, then the environment, then the overrides, then the action inputs for unset keys.
\<close>

definition spec_job_inputs ::
  "DependencyNode \<Rightarrow> ProviderMetadata \<Rightarrow> PlanRequest \<Rightarrow> string \<Rightarrow> (string \<rightharpoonup> any)" where
  "spec_job_inputs node providerMeta req action =
     (let inputs = Defaults (ThinCI providerMeta);
          inputs = inputs(''component'' \<mapsto> VStr (dn_ComponentName node));
          inputs = (if Environment req \<noteq> []
                    then inputs(''environment'' \<mapsto> VStr (Environment req)) else inputs);
          inputs = (case ProviderOverrides req (dn_Provider node) of
                      Some overrides \<Rightarrow> inputs ++ overrides
                    | None \<Rightarrow> inputs)
      in backfill inputs
           (case findProviderAction providerMeta action of
              Some pa \<Rightarrow> pa_Inputs pa
            | None \<Rightarrow> Map.empty))"

text \<open>
  The dependencies of a first-action job in closed form: one entry for every declared
  dependency whose node, found by name among the nodes, has an action, namely that node's
  last-action job id. \<open>emitted_for nodes node i j\<close>: the job \<open>j\<close> is the job of the \<open>i\<close>-th
  action of \<open>node\<close>, with the dependencies of invariants I4 and I5.
\<close>

definition has_actions :: "DependencyNode list \<Rightarrow> string \<Rightarrow> bool" where
  "has_actions nodes d = (case findNode d nodes of Some depNode \<Rightarrow> dn_Actions depNode \<noteq> [] | None \<Rightarrow> False)"

definition last_action_job :: "DependencyNode list \<Rightarrow> string \<Rightarrow> string" where
  "last_action_job nodes d = (case findNode d nodes of Some depNode \<Rightarrow> job_id d (last (dn_Actions depNode)) | None \<Rightarrow> [])"

definition emitted_for :: "DependencyNode list \<Rightarrow> DependencyNode \<Rightarrow> nat \<Rightarrow> Job \<Rightarrow> bool" where
  "emitted_for nodes node i j =
     (job_ID j = job_id (dn_ComponentName node) (dn_Actions node ! i)
      \<and> job_Component j = dn_ComponentName node
      \<and> job_Provider j = dn_Provider node
      \<and> job_Action j = dn_Actions node ! i
      \<and> job_DependsOn j =
          (if i > 0 then [job_id (dn_ComponentName node) (dn_Actions node ! (i - 1))]
           else map (last_action_job nodes) (filter (has_actions nodes) (dn_Dependencies node))))"

text \<open>The jobs of one node, in closed form.\<close>

definition node_jobs :: "ProviderRegistry \<Rightarrow> DependencyNode list \<Rightarrow> PlanRequest \<Rightarrow> DependencyNode \<Rightarrow> Job list" where
  "node_jobs registry nodes req node =
     (case registry (dn_Provider node) of
        None \<Rightarrow> []
      | Some providerMeta \<Rightarrow>
          map (\<lambda>k. make_job providerMeta nodes req node k (dn_Actions node ! k))
            [0..<length (dn_Actions node)])"






text \<open>
  Command templates with fields: a template is a sequence of pieces, plain text without a
  brace and fields \<^verbatim>\<open>{{.name}}\<close> whose name is an identifier. Its text is the
  concatenation of the pieces, and its value under a context replaces every field by the
  context's entry, or by \<^verbatim>\<open><no value>\<close> when the context has none. The command
  templates of a job, in the order ExecuteJob takes them: the commands of the pre-steps,
  the main commands, the commands of the post-steps.
\<close>

datatype piece = Text string | Field string

definition piece_ok :: "piece \<Rightarrow> bool" where
  "piece_ok p =
     (case p of
        Text s \<Rightarrow> CHR ''{'' \<notin> set s
      | Field name \<Rightarrow>
          name \<noteq> [] \<and> list_all is_ident_char name \<and> hd name \<notin> set ''0123456789'')"

definition piece_text :: "piece \<Rightarrow> string" where
  "piece_text p = (case p of Text s \<Rightarrow> s | Field name \<Rightarrow> ''{{.'' @ name @ ''}}'')"

definition template_text :: "piece list \<Rightarrow> string" where
  "template_text ps = concat (map piece_text ps)"

definition piece_value :: "(string \<rightharpoonup> string) \<Rightarrow> piece \<Rightarrow> string" where
  "piece_value context p =
     (case p of
        Text s \<Rightarrow> s
      | Field name \<Rightarrow> (case context name of Some v \<Rightarrow> v | None \<Rightarrow> ''<no value>''))"

definition substitute :: "(string \<rightharpoonup> string) \<Rightarrow> piece list \<Rightarrow> string" where
  "substitute context ps = concat (map (piece_value context) ps)"

definition job_templates :: "JobMap \<Rightarrow> string list" where
  "job_templates job =
     map step_Command (extractSteps job ''preSteps'')
     @ extractCommands job ''commands''
     @ map step_Command (extractSteps job ''postSteps'')"

text \<open>
  The names of the nodes, and the dependency edges among them: an edge leads from a
  declared dependency that is itself the name of a node to the node declaring it. The
  errors of the expansion stage: an unregistered provider, or a changed component that no
  intent holds.
\<close>

definition node_names :: "DependencyNode list \<Rightarrow> string list" where
  "node_names nodes = map dn_ComponentName nodes"

definition dep_edges :: "DependencyNode list \<Rightarrow> (string \<times> string) set" where
  "dep_edges nodes =
     {(dep, dn_ComponentName node) | dep node.
        node \<in> set nodes \<and> dep \<in> set (dn_Dependencies node) \<and> dep \<in> set (node_names nodes)}"

definition expansion_error :: "error \<Rightarrow> bool" where
  "expansion_error err =
     ((\<exists>name. err = Wrapped (''provider '' @ quoted name @ '' not found: '')
                      (Msg (''provider '' @ quoted name @ '' not registered'')))
      \<or> (\<exists>name. err = Msg (''component '' @ quoted name @ '' not found in intent'')))"

section \<open>Example values\<close>

definition ex_request :: PlanRequest where
  "ex_request = \<lparr>BaseRef = ''main'', HeadRef = ''HEAD'', ChangedFiles = [],
     RepositoryPath = ''.'', IntentFiles = [], Target = ''github'', Mode = ''plan'',
     ChangedOnly = True, Environment = [],
     ProviderOverrides = [''terraform'' \<mapsto> [''workspace'' \<mapsto> VStr ''prod'']]\<rparr>"

definition ex_terraform :: ProviderMetadata where
  "ex_terraform = \<lparr>pm_Name = ''terraform'', pm_Version = ''1'', ThinCI = \<lparr>Actions =
       [\<lparr>pa_Name = ''plan'', pa_Inputs = [''workspace'' \<mapsto> VStr ''default'']\<rparr>],
     Defaults = [''timeout'' \<mapsto> VInt 1800, ''component'' \<mapsto> VStr ''shared'']\<rparr>\<rparr>"

definition ex_node :: DependencyNode where
  "ex_node = \<lparr>dn_ComponentName = ''vpc'', dn_Provider = ''terraform'',
     dn_Actions = [''plan''], dn_Dependencies = []\<rparr>"

definition ex_db :: DependencyNode where
  "ex_db = \<lparr>dn_ComponentName = ''db'', dn_Provider = ''terraform'',
     dn_Actions = [], dn_Dependencies = []\<rparr>"

definition ex_api :: DependencyNode where
  "ex_api = \<lparr>dn_ComponentName = ''api'', dn_Provider = ''terraform'',
     dn_Actions = [''plan''], dn_Dependencies = [''db'', ''vpc'', ''cache'']\<rparr>"

definition ex_helm_job :: JobMap where
  "ex_helm_job = [''id'' \<mapsto> VStr ''web-plan'', ''component'' \<mapsto> VStr ''web'',
     ''provider'' \<mapsto> VStr ''helm'', ''action'' \<mapsto> VStr ''plan'',
     ''commands'' \<mapsto> VList [VStr ''helm template {{.releaseName}} {{.chartPath}}''],
     ''inputs'' \<mapsto> VMap [(''releaseName'', VStr ''my-app''), (''chartPath'', VStr ''./c'')]]"

definition ex_helm_job_no_release :: JobMap where
  "ex_helm_job_no_release = [''id'' \<mapsto> VStr ''web-plan'', ''component'' \<mapsto> VStr ''web'',
     ''provider'' \<mapsto> VStr ''helm'', ''action'' \<mapsto> VStr ''plan'',
     ''commands'' \<mapsto> VStrs [''helm template {{.releaseName}} {{.chartPath}}''],
     ''inputs'' \<mapsto> VMap [(''chartPath'', VStr ''./c'')]]"

definition ex_executor :: Executor where
  "ex_executor = \<lparr>verbose = False, dryRun = False\<rparr>"

definition ex_vpc :: DependencyNode where
  "ex_vpc = \<lparr>dn_ComponentName = ''vpc'', dn_Provider = ''terraform'',
     dn_Actions = [''validate'', ''plan''], dn_Dependencies = []\<rparr>"

definition ex_eks :: DependencyNode where
  "ex_eks = \<lparr>dn_ComponentName = ''eks'', dn_Provider = ''terraform'',
     dn_Actions = [''validate'', ''plan''], dn_Dependencies = [''vpc'', ''dns'']\<rparr>"

primrec join_slash :: "string list \<Rightarrow> string" where
  "join_slash [] = []"
| "join_slash (s # ss) = (if ss = [] then s else s @ ''/'' @ join_slash ss)"

definition ex_runtime :: runtime where
  "ex_runtime = \<lparr>filepath_Join = join_slash, filepath_Match = (\<lambda>pattern name. False),
     range_changes = rev, range_inDegree = rev, time_Now = ''2024-01-01T00:00:00Z''\<rparr>"

definition ex_tf :: ProviderMetadata where
  "ex_tf = \<lparr>pm_Name = ''terraform'', pm_Version = ''1'', ThinCI = \<lparr>Actions =
       [\<lparr>pa_Name = ''validate'', pa_Inputs = Map.empty\<rparr>,
        \<lparr>pa_Name = ''plan'', pa_Inputs = Map.empty\<rparr>,
        \<lparr>pa_Name = ''apply'', pa_Inputs = Map.empty\<rparr>,
        \<lparr>pa_Name = ''destroy'', pa_Inputs = Map.empty\<rparr>],
     Defaults = Map.empty\<rparr>\<rparr>"

definition ex_intent :: Repository where
  "ex_intent = \<lparr>Components =
       [\<lparr>comp_Name = ''vpc'', comp_Type = ''terraform.network'', comp_Spec = []\<rparr>,
        \<lparr>comp_Name = ''eks'', comp_Type = ''terraform.cluster'', comp_Spec = []\<rparr>],
     Relationships = [\<lparr>rel_From = ''eks'', rel_To = ''vpc'', rel_Type = ''depends_on''\<rparr>]\<rparr>"

definition ex_cyclic_intent :: Repository where
  "ex_cyclic_intent = \<lparr>Components =
       [\<lparr>comp_Name = ''a'', comp_Type = ''terraform.network'', comp_Spec = []\<rparr>,
        \<lparr>comp_Name = ''b'', comp_Type = ''terraform.cluster'', comp_Spec = []\<rparr>],
     Relationships = [\<lparr>rel_From = ''a'', rel_To = ''b'', rel_Type = ''depends_on''\<rparr>,
                      \<lparr>rel_From = ''b'', rel_To = ''a'', rel_Type = ''uses''\<rparr>]\<rparr>"

definition ex_plan_request :: PlanRequest where
  "ex_plan_request = \<lparr>BaseRef = ''main'', HeadRef = ''HEAD'',
     ChangedFiles = [''terraform/vpc/main.tf'', ''terraform/eks/main.tf''],
     RepositoryPath = ''.'', IntentFiles = [], Target = ''github'', Mode = ''plan'',
     ChangedOnly = True, Environment = [], ProviderOverrides = Map.empty\<rparr>"

definition ex_cyclic_nodes :: "DependencyNode list" where
  "ex_cyclic_nodes =
     [\<lparr>dn_ComponentName = ''b'', dn_Provider = ''terraform'',
       dn_Actions = [''validate'', ''plan''], dn_Dependencies = [''a'']\<rparr>,
      \<lparr>dn_ComponentName = ''a'', dn_Provider = ''terraform'',
       dn_Actions = [''validate'', ''plan''], dn_Dependencies = [''b'']\<rparr>]"

definition ex_linear_nodes :: "DependencyNode list" where
  "ex_linear_nodes =
     [\<lparr>dn_ComponentName = ''eks'', dn_Provider = ''terraform'',
       dn_Actions = [''validate'', ''plan''], dn_Dependencies = [''vpc'']\<rparr>,
      \<lparr>dn_ComponentName = ''vpc'', dn_Provider = ''terraform'',
       dn_Actions = [''validate'', ''plan''], dn_Dependencies = []\<rparr>]"

definition ex_intent_request :: PlanRequest where
  "ex_intent_request = ex_plan_request\<lparr>ChangedFiles := [''intent.yaml'']\<rparr>"

definition ex_foo_intent :: Repository where
  "ex_foo_intent = \<lparr>Components =
       [\<lparr>comp_Name = ''cache'', comp_Type = ''foo'', comp_Spec = []\<rparr>],
     Relationships = []\<rparr>"

definition ex_cache :: Component where
  "ex_cache = \<lparr>comp_Name = ''cache'', comp_Type = ''foo'', comp_Spec = []\<rparr>"

definition ex_cache_change :: ComponentChange where
  "ex_cache_change = \<lparr>cc_ComponentName = ''cache'', cc_Provider = ''foo'',
     cc_ComponentType = ''foo'', cc_Reason = ''Component files changed'',
     cc_AffectedPaths = [''foo/cache/main.tf'']\<rparr>"

definition ex_foo_provider :: ProviderMetadata where
  "ex_foo_provider = ex_tf\<lparr>pm_Name := ''foo''\<rparr>"

definition ex_aws :: ProviderMetadata where
  "ex_aws = \<lparr>pm_Name = ''aws'', pm_Version = ''1'', ThinCI = \<lparr>Actions =
       [\<lparr>pa_Name = ''apply'', pa_Inputs = Map.empty\<rparr>],
     Defaults = Map.empty\<rparr>\<rparr>"

definition ex_layers_intent :: Repository where
  "ex_layers_intent = \<lparr>Components =
       [\<lparr>comp_Name = ''db'', comp_Type = ''aws.database'', comp_Spec = []\<rparr>,
        \<lparr>comp_Name = ''api'', comp_Type = ''terraform.service'', comp_Spec = []\<rparr>],
     Relationships = [\<lparr>rel_From = ''api'', rel_To = ''db'', rel_Type = ''depends_on''\<rparr>]\<rparr>"


definition ex_release_job :: JobMap where
  "ex_release_job = [''id'' \<mapsto> VStr ''web-apply'', ''component'' \<mapsto> VStr ''web'',
     ''provider'' \<mapsto> VStr ''helm'', ''action'' \<mapsto> VStr ''apply'',
     ''preSteps'' \<mapsto> VList
        [VMap [(''name'', VStr ''repos''),
               (''command'', VStr ''helm repo update --namespace {{.namespace}}'')]],
     ''commands'' \<mapsto> VList
        [VStr ''helm upgrade --install {{.releaseName}} {{.chartPath}} --timeout {{.timeout}}s --atomic={{.atomic}} --history-max {{.history}}''],
     ''postSteps'' \<mapsto> VList
        [VMap [(''name'', VStr ''status''),
               (''command'', VStr ''helm status {{.releaseName}} # {{.id}} {{.replicas}} {{.owner}}'')]],
     ''inputs'' \<mapsto> VMap
        [(''chartPath'', VStr ''./c''), (''timeout'', VFloat (Float64 False ''18'' 7)),
         (''atomic'', VBool True), (''history'', VInt 5),
         (''replicas'', VFloat (Float64 False ''3'' 2))]]"

definition ex_helm_pieces :: "piece list list" where
  "ex_helm_pieces = [[Text ''helm template '', Field ''releaseName'', Text '' '', Field ''chartPath'']]"

definition ex_echo_pieces :: "piece list" where
  "ex_echo_pieces = [Text ''echo '', Field ''missing'']"

definition ex_release_pieces :: "piece list list" where
  "ex_release_pieces =
     [[Text ''helm repo update --namespace '', Field ''namespace''],
      [Text ''helm upgrade --install '', Field ''releaseName'', Text '' '', Field ''chartPath'',
       Text '' --timeout '', Field ''timeout'', Text ''s --atomic='', Field ''atomic'',
       Text '' --history-max '', Field ''history''],
      [Text ''helm status '', Field ''releaseName'', Text '' # '', Field ''id'', Text '' '',
       Field ''replicas'', Text '' '', Field ''owner'']]"

section \<open>Action expansion: properties\<close>

lemma hasAction_iff: "hasAction actions name \<longleftrightarrow> name \<in> set (map pa_Name actions)"
  by (induction actions) auto

text \<open>
  C4. determineActions maps the mode to the action list: \<^verbatim>\<open>plan\<close> gives validate, plan;
  \<^verbatim>\<open>apply\<close> gives validate, plan, apply; \<^verbatim>\<open>destroy\<close> gives destroy; each name is kept
  only if it is the name of one of the provider's actions, in that order; any other mode
  gives the empty list. A provider supporting only validate and apply yields exactly
  validate in mode \<^verbatim>\<open>plan\<close>.
\<close>

theorem determineActions_by_mode:
  "determineActions ''plan'' p =
     filter (\<lambda>n. n \<in> set (map pa_Name (Actions (ThinCI p)))) [''validate'', ''plan'']
   \<and> determineActions ''apply'' p =
     filter (\<lambda>n. n \<in> set (map pa_Name (Actions (ThinCI p)))) [''validate'', ''plan'', ''apply'']
   \<and> determineActions ''destroy'' p =
     filter (\<lambda>n. n \<in> set (map pa_Name (Actions (ThinCI p)))) [''destroy'']
   \<and> (mode \<noteq> ''plan'' \<and> mode \<noteq> ''apply'' \<and> mode \<noteq> ''destroy'' \<longrightarrow> determineActions mode p = [])
   \<and> (set (map pa_Name (Actions (ThinCI p))) = {''validate'', ''apply''}
        \<longrightarrow> determineActions ''plan'' p = [''validate''])"
  by (auto simp: determineActions_def append_if_supported_def hasAction_iff)

theorem determineActions_by_mode_witness:
  "(''deploy'' \<noteq> ''plan'' \<and> ''deploy'' \<noteq> ''apply'' \<and> ''deploy'' \<noteq> ''destroy'')
   \<and> set (map pa_Name (Actions (ThinCI
        \<lparr>pm_Name = ''helm'', pm_Version = ''1'', ThinCI = \<lparr>Actions =
           [\<lparr>pa_Name = ''validate'', pa_Inputs = Map.empty\<rparr>,
            \<lparr>pa_Name = ''apply'', pa_Inputs = Map.empty\<rparr>],
           Defaults = Map.empty\<rparr>\<rparr>))) = {''validate'', ''apply''}
   \<and> determineActions ''deploy''
        \<lparr>pm_Name = ''helm'', pm_Version = ''1'', ThinCI = \<lparr>Actions =
           [\<lparr>pa_Name = ''validate'', pa_Inputs = Map.empty\<rparr>,
            \<lparr>pa_Name = ''apply'', pa_Inputs = Map.empty\<rparr>],
           Defaults = Map.empty\<rparr>\<rparr> = []
   \<and> determineActions ''plan''
        \<lparr>pm_Name = ''helm'', pm_Version = ''1'', ThinCI = \<lparr>Actions =
           [\<lparr>pa_Name = ''validate'', pa_Inputs = Map.empty\<rparr>,
            \<lparr>pa_Name = ''apply'', pa_Inputs = Map.empty\<rparr>],
           Defaults = Map.empty\<rparr>\<rparr> = [''validate'']"
  using determineActions_by_mode
    [of "\<lparr>pm_Name = ''helm'', pm_Version = ''1'', ThinCI = \<lparr>Actions =
           [\<lparr>pa_Name = ''validate'', pa_Inputs = Map.empty\<rparr>,
            \<lparr>pa_Name = ''apply'', pa_Inputs = Map.empty\<rparr>],
           Defaults = Map.empty\<rparr>\<rparr>" "''deploy''"]
  by auto

section \<open>Job inputs\<close>

text \<open>
  C6, as stated, at a provider whose defaults carry the key \<^verbatim>\<open>component\<close>: the planner
  writes the component name first and the defaults over it, so the default stays, where
  the stated order ends with the component name.
\<close>

theorem job_inputs_component_counterexample:
  "job_inputs ex_node ex_terraform ex_request ''plan'' ''component'' = Some (VStr ''shared'')
   \<and> spec_job_inputs ex_node ex_terraform ex_request ''plan'' ''component'' = Some (VStr ''vpc'')"
  by (simp add: job_inputs_def spec_job_inputs_def buildJobInputs_def backfill_def
      findProviderAction_def ex_node_def ex_terraform_def ex_request_def)

lemma buildJobInputs_at:
  "buildJobInputs node providerMeta req k =
     (case (case ProviderOverrides req (dn_Provider node) of
              Some overrides \<Rightarrow> overrides k | None \<Rightarrow> None) of
        Some v \<Rightarrow> Some v
      | None \<Rightarrow>
          if k = ''environment'' \<and> Environment req \<noteq> [] then Some (VStr (Environment req))
          else case Defaults (ThinCI providerMeta) k of
            Some v \<Rightarrow> Some v
          | None \<Rightarrow>
              if k = ''component'' then Some (VStr (dn_ComponentName node)) else None)"
proof -
  define base where "base = (Map.empty(''component'' \<mapsto> VStr (dn_ComponentName node))) ++ Defaults (ThinCI providerMeta)"
  define env where "env = (if Environment req \<noteq> [] then base(''environment'' \<mapsto> VStr (Environment req)) else base)"
  have b: "base k = (case Defaults (ThinCI providerMeta) k of Some v \<Rightarrow> Some v
      | None \<Rightarrow> if k = ''component'' then Some (VStr (dn_ComponentName node)) else None)"
    unfolding base_def map_add_def by (cases "Defaults (ThinCI providerMeta) k") simp_all
  have e: "env k = (if k = ''environment'' \<and> Environment req \<noteq> [] then Some (VStr (Environment req)) else base k)"
    unfolding env_def by simp
  have r: "buildJobInputs node providerMeta req =
      (case ProviderOverrides req (dn_Provider node) of Some overrides \<Rightarrow> env ++ overrides | None \<Rightarrow> env)"
    unfolding buildJobInputs_def Let_def env_def base_def by (rule refl)
  show ?thesis
  proof (cases "ProviderOverrides req (dn_Provider node)")
    case None
    then show ?thesis unfolding r by (simp only: option.case e b)
  next
    case (Some ov)
    show ?thesis
    proof (cases "ov k")
      case None
      then show ?thesis unfolding r Some by (simp only: option.case e b map_add_def)
    next
      case (Some v)
      then show ?thesis unfolding r \<open>ProviderOverrides req (dn_Provider node) = Some ov\<close>
        by (simp only: option.case map_add_def)
    qed
  qed
qed

lemma option_precedence:
  "(case (case ov of Some v \<Rightarrow> Some v
          | None \<Rightarrow> if e then Some x
                    else (case d of Some v \<Rightarrow> Some v
                          | None \<Rightarrow> if c then Some y else None)) of
      Some v \<Rightarrow> Some v | None \<Rightarrow> extra)
   = (case ov of Some v \<Rightarrow> Some v
      | None \<Rightarrow> if e then Some x
                else (case d of Some v \<Rightarrow> Some v
                      | None \<Rightarrow> if c then Some y else extra))"
  by (cases ov; cases d; simp)

text \<open>
  C6, amended. The inputs of every job, key by key: an override of the node's provider
  wins; else the request's environment, for the key \<^verbatim>\<open>environment\<close> when it is
  non-empty; else the provider default; else the component name, for the key
  \<^verbatim>\<open>component\<close>; else the input of the provider action. So an override beats the
  action input of the same key, a default survives when neither an override nor the
  environment writes its key, and a default replaces nothing but the component name.
\<close>

theorem job_inputs_precedence:
  "job_inputs node providerMeta req action k =
     (case (case ProviderOverrides req (dn_Provider node) of
              Some overrides \<Rightarrow> overrides k | None \<Rightarrow> None) of
        Some v \<Rightarrow> Some v
      | None \<Rightarrow>
          if k = ''environment'' \<and> Environment req \<noteq> [] then Some (VStr (Environment req))
          else case Defaults (ThinCI providerMeta) k of
            Some v \<Rightarrow> Some v
          | None \<Rightarrow>
              if k = ''component'' then Some (VStr (dn_ComponentName node))
              else case findProviderAction providerMeta action of
                Some pa \<Rightarrow> pa_Inputs pa k
              | None \<Rightarrow> None)"
proof -
  let ?extra = "case findProviderAction providerMeta action of
                  Some pa \<Rightarrow> pa_Inputs pa k | None \<Rightarrow> None"
  have j: "job_inputs node providerMeta req action k =
      (case buildJobInputs node providerMeta req k of Some v \<Rightarrow> Some v | None \<Rightarrow> ?extra)"
    by (cases "findProviderAction providerMeta action")
       (simp_all add: job_inputs_def backfill_def split: option.splits)
  show ?thesis
    unfolding j buildJobInputs_at by (rule option_precedence)
qed

theorem job_inputs_precedence_witness:
  "job_inputs ex_node ex_terraform ex_request ''plan'' ''workspace'' = Some (VStr ''prod'')
   \<and> job_inputs ex_node ex_terraform ex_request ''plan'' ''timeout'' = Some (VInt 1800)"
  using job_inputs_precedence [of ex_node ex_terraform ex_request "''plan''" "''workspace''"]
        job_inputs_precedence [of ex_node ex_terraform ex_request "''plan''" "''timeout''"]
  by (simp add: findProviderAction_def ex_node_def ex_terraform_def ex_request_def)

section \<open>Job dependencies\<close>

lemma first_action_deps_eq:
  "first_action_deps nodes ds deps =
     deps @ map (last_action_job nodes) (filter (has_actions nodes) ds)"
proof (induction ds arbitrary: deps)
  case Nil
  then show ?case by simp
next
  case (Cons d ds)
  show ?case
  proof (cases "findNode d nodes")
    case None
    then show ?thesis by (simp add: Cons.IH has_actions_def)
  next
    case (Some depNode)
    then show ?thesis
      by (cases "dn_Actions depNode = []")
         (simp_all add: Cons.IH has_actions_def last_action_job_def last_conv_nth)
  qed
qed

lemma make_job_emitted_for:
  "emitted_for nodes node i (make_job providerMeta nodes req node i (dn_Actions node ! i))"
  by (simp add: emitted_for_def make_job_def job_deps_def first_action_deps_eq)

lemma action_loop_eq:
  "action_loop providerMeta nodes req node i acts jobs =
     jobs @ map (\<lambda>k. make_job providerMeta nodes req node (i + k) (acts ! k)) [0..<length acts]"
proof (induction acts arbitrary: i jobs)
  case Nil
  then show ?case by simp
next
  case (Cons a acts)
  show ?case
    by (simp add: Cons.IH map_upt_Suc del: upt_Suc)
qed

lemma node_loop_eq:
  "node_loop registry nodes req ns jobs = jobs @ concat (map (node_jobs registry nodes req) ns)"
proof (induction ns arbitrary: jobs)
  case Nil
  then show ?case by simp
next
  case (Cons n ns)
  show ?case
    by (cases "registry (dn_Provider n)") (simp_all add: Cons.IH node_jobs_def action_loop_eq)
qed

lemma generateJobs_eq:
  "generateJobs registry nodes req = concat (map (node_jobs registry nodes req) nodes)"
  by (simp add: generateJobs_def node_loop_eq)

text \<open>
  C3, amended. Every emitted job is the job of the \<open>i\<close>-th action of some node, and every
  action of every node with a registered provider has such a job. For \<open>i > 0\<close> its
  dependsOn is exactly the job of the previous action of the same component. For
  \<open>i = 0\<close> it has one entry per declared dependency that names a node with a non-empty
  action list, namely that node's last-action job id; a declared dependency naming no node,
  or a node without actions, contributes no entry.
\<close>

theorem generateJobs_dependsOn:
  "(\<forall>j \<in> set (generateJobs registry nodes req).
      \<exists>node \<in> set nodes. \<exists>i < length (dn_Actions node). emitted_for nodes node i j)
   \<and> (\<forall>node \<in> set nodes. registry (dn_Provider node) \<noteq> None \<longrightarrow>
        (\<forall>i < length (dn_Actions node).
           \<exists>j \<in> set (generateJobs registry nodes req). emitted_for nodes node i j))"
proof (intro conjI ballI impI allI)
  fix j assume "j \<in> set (generateJobs registry nodes req)"
  then obtain node where n: "node \<in> set nodes" and j: "j \<in> set (node_jobs registry nodes req node)"
    by (auto simp: generateJobs_eq)
  from j obtain pm where pm: "registry (dn_Provider node) = Some pm"
    by (cases "registry (dn_Provider node)") (simp_all add: node_jobs_def)
  from j obtain i where "i < length (dn_Actions node)"
    "j = make_job pm nodes req node i (dn_Actions node ! i)"
    by (auto simp: node_jobs_def pm)
  with n show "\<exists>node \<in> set nodes. \<exists>i < length (dn_Actions node). emitted_for nodes node i j"
    using make_job_emitted_for by blast
next
  fix node i
  assume n: "node \<in> set nodes" and r: "registry (dn_Provider node) \<noteq> None"
    and i: "i < length (dn_Actions node)"
  from r obtain pm where pm: "registry (dn_Provider node) = Some pm" by blast
  have "make_job pm nodes req node i (dn_Actions node ! i) \<in> set (node_jobs registry nodes req node)"
    using i by (simp add: node_jobs_def pm)
  then have "make_job pm nodes req node i (dn_Actions node ! i) \<in> set (generateJobs registry nodes req)"
    using n by (auto simp: generateJobs_eq)
  then show "\<exists>j \<in> set (generateJobs registry nodes req). emitted_for nodes node i j"
    using make_job_emitted_for by blast
qed

theorem generateJobs_dependsOn_witness:
  "ex_eks \<in> set [ex_vpc, ex_eks]
   \<and> [''terraform'' \<mapsto> ex_terraform] (dn_Provider ex_eks) \<noteq> None
   \<and> 0 < length (dn_Actions ex_eks) \<and> 1 < length (dn_Actions ex_eks)
   \<and> (\<exists>j \<in> set (generateJobs [''terraform'' \<mapsto> ex_terraform] [ex_vpc, ex_eks] ex_request).
         job_ID j = ''eks-validate'' \<and> job_DependsOn j = [''vpc-plan''])
   \<and> (\<exists>j \<in> set (generateJobs [''terraform'' \<mapsto> ex_terraform] [ex_vpc, ex_eks] ex_request).
         job_ID j = ''eks-plan'' \<and> job_DependsOn j = [''eks-validate''])"
proof -
  have n: "ex_eks \<in> set [ex_vpc, ex_eks]" by simp
  have r: "[''terraform'' \<mapsto> ex_terraform] (dn_Provider ex_eks) \<noteq> None"
    by (simp add: ex_eks_def)
  have l: "0 < length (dn_Actions ex_eks)" "1 < length (dn_Actions ex_eks)"
    by (simp_all add: ex_eks_def)
  note t = generateJobs_dependsOn [of "[''terraform'' \<mapsto> ex_terraform]" "[ex_vpc, ex_eks]"
      ex_request, THEN conjunct2, rule_format, OF n r]
  have s: "emitted_for [ex_vpc, ex_eks] ex_eks 0 j
      \<Longrightarrow> job_ID j = ''eks-validate'' \<and> job_DependsOn j = [''vpc-plan'']" for j
    by (simp add: emitted_for_def has_actions_def last_action_job_def job_id_def
        ex_eks_def ex_vpc_def)
  have s': "emitted_for [ex_vpc, ex_eks] ex_eks 1 j
      \<Longrightarrow> job_ID j = ''eks-plan'' \<and> job_DependsOn j = [''eks-validate'']" for j
    by (simp add: emitted_for_def job_id_def ex_eks_def)
  from t [OF l(1)] s t [OF l(2)] s' n r l show ?thesis by blast
qed

text \<open>
  C3, as stated, at a dependency that is a changed component without actions: in mode
  \<^verbatim>\<open>plan\<close> the provider of \<^verbatim>\<open>db\<close> supports \<^verbatim>\<open>apply\<close> only, so \<^verbatim>\<open>db\<close> is a node
  with an empty action list; it is a declared dependency of \<^verbatim>\<open>api\<close>, and the
  first-action job of \<^verbatim>\<open>api\<close> has no dependsOn entry.
\<close>

theorem generateJobs_empty_dependency_counterexample:
  "map job_DependsOn (generateJobs [''terraform'' \<mapsto> ex_terraform] [ex_db, ex_api] ex_request) = [[]]
   \<and> filter (\<lambda>d. findNode d [ex_db, ex_api] \<noteq> None) (dn_Dependencies ex_api) = [''db'']
   \<and> map cc_ComponentName
         (DetectChanges ex_runtime [ex_layers_intent] (ChangedFiles ex_intent_request))
       = [''api'', ''db'']
   \<and> (case GeneratePlan ex_runtime [''terraform'' \<mapsto> ex_tf, ''aws'' \<mapsto> ex_aws]
              ex_intent_request [ex_layers_intent] of
         Inl err \<Rightarrow> False
       | Inr plan \<Rightarrow>
           map (\<lambda>j. (job_ID j, job_DependsOn j)) (plan_Jobs plan)
           = [(''api-validate'', []), (''api-plan'', [''api-validate''])])"
proof -
  have 1: "map job_DependsOn
      (generateJobs [''terraform'' \<mapsto> ex_terraform] [ex_db, ex_api] ex_request) = [[]]"
    by (simp add: generateJobs_def make_job_def job_deps_def ex_db_def ex_api_def)
  have 2: "filter (\<lambda>d. findNode d [ex_db, ex_api] \<noteq> None) (dn_Dependencies ex_api) = [''db'']"
    by (simp add: ex_db_def ex_api_def)
  have 3: "map cc_ComponentName
         (DetectChanges ex_runtime [ex_layers_intent] (ChangedFiles ex_intent_request))
       = [''api'', ''db'']"
    by code_simp
  have 4: "(case GeneratePlan ex_runtime [''terraform'' \<mapsto> ex_tf, ''aws'' \<mapsto> ex_aws]
              ex_intent_request [ex_layers_intent] of
         Inl err \<Rightarrow> False
       | Inr plan \<Rightarrow>
           map (\<lambda>j. (job_ID j, job_DependsOn j)) (plan_Jobs plan)
           = [(''api-validate'', []), (''api-plan'', [''api-validate''])])"
    by code_simp
  from 1 2 3 4 show ?thesis by (intro conjI)
qed

section \<open>Job templates\<close>











section \<open>Executor: template context\<close>

lemma set_default_at:
  "set_default key v context k =
     (case context k of Some x \<Rightarrow> Some x | None \<Rightarrow> if k = key then Some v else None)"
  by (auto simp: set_default_def split: option.splits)

lemma buildTemplateContext_input:
  "inputs key = Some v \<Longrightarrow> buildTemplateContext job inputs key = Some (fmt_v v)"
  by (simp add: buildTemplateContext_def Let_def set_default_at)

lemma buildTemplateContext_no_input:
  "inputs key = None \<Longrightarrow> buildTemplateContext job inputs key =
     (if key = ''id'' then Some (GetID job)
      else if key = ''component'' then Some (GetComponent job)
      else if key = ''provider'' then Some (GetProvider job)
      else if key = ''action'' then Some (GetAction job)
      else if key = ''releaseName'' then Some (GetComponent job)
      else if key = ''namespace'' then Some ''default''
      else if key = ''chartPath'' then Some ''.''
      else if key = ''valuesPath'' then Some ''values.yaml''
      else if key = ''timeout'' then Some ''10m''
      else None)"
  by (simp add: buildTemplateContext_def Let_def set_default_at)

lemma render_text:
  "CHR ''{'' \<notin> set s \<Longrightarrow>
   render context None (s @ rest) =
     (case render context None rest of Inl err \<Rightarrow> Inl err | Inr out \<Rightarrow> Inr (s @ out))"
proof (induction s)
  case Nil
  show ?case by (cases "render context None rest") simp_all
next
  case (Cons c s)
  then have c: "c \<noteq> CHR ''{''" and s: "CHR ''{'' \<notin> set s" by auto
  show ?case
  proof (cases "s @ rest")
    case Nil
    then show ?thesis by simp
  next
    case (Cons d cs)
    have "render context None (c # d # cs) =
        (case render context None (d # cs) of Inl err \<Rightarrow> Inl err | Inr out \<Rightarrow> Inr (c # out))"
      using c by simp
    also have "render context None (d # cs) =
        (case render context None rest of Inl err \<Rightarrow> Inl err | Inr out \<Rightarrow> Inr (s @ out))"
      using Cons.IH [OF s] Cons by simp
    finally show ?thesis
      using Cons by (cases "render context None rest") simp_all
  qed
qed

lemma render_action:
  "CHR ''}'' \<notin> set b \<Longrightarrow>
   render context (Some acc) (b @ ''}}'' @ rest) =
     (case field_of (acc @ b) of
        None \<Rightarrow> Inl (Msg ''template: command: unsupported action'')
      | Some key \<Rightarrow>
          (case render context None rest of
             Inl err \<Rightarrow> Inl err
           | Inr out \<Rightarrow>
               Inr ((case context key of Some v \<Rightarrow> v | None \<Rightarrow> ''<no value>'') @ out)))"
proof (induction b arbitrary: acc)
  case Nil
  show ?case by simp
next
  case (Cons c b)
  then have c: "c \<noteq> CHR ''}''" and b: "CHR ''}'' \<notin> set b" by auto
  obtain d cs where n: "b @ ''}}'' @ rest = d # cs" by (cases b) auto
  have "render context (Some acc) (c # d # cs) = render context (Some (acc @ [c])) (d # cs)"
    using c by simp
  then show ?case
    using Cons.IH [OF b, of "acc @ [c]"] n by simp
qed

lemma ident_char_plain:
  "is_ident_char c \<Longrightarrow> c \<noteq> CHR '' '' \<and> c \<noteq> CHR ''}''"
  by (auto simp: is_ident_char_def)

lemma field_of_name:
  assumes "name \<noteq> []" "list_all is_ident_char name" "hd name \<notin> set ''0123456789''"
  shows "field_of (CHR ''.'' # name) = Some name"
proof -
  from assms(1) obtain xs x where n: "name = xs @ [x]"
    by (cases name rule: rev_cases) simp_all
  with assms(2) have "is_ident_char x" by simp
  then have "x \<noteq> CHR '' ''" by (simp add: ident_char_plain)
  then have "trim_blanks (CHR ''.'' # name) = CHR ''.'' # name"
    by (simp add: trim_blanks_def n)
  then show ?thesis
    using assms by (simp add: field_of_def)
qed

lemma render_field:
  assumes "piece_ok (Field name)"
  shows "render context None (piece_text (Field name) @ rest) =
     (case render context None rest of
        Inl err \<Rightarrow> Inl err
      | Inr out \<Rightarrow> Inr (piece_value context (Field name) @ out))"
proof -
  from assms have a: "name \<noteq> []" "list_all is_ident_char name" "hd name \<notin> set ''0123456789''"
    by (simp_all add: piece_ok_def)
  have pv: "piece_value context (Field name)
      = (case context name of Some v \<Rightarrow> v | None \<Rightarrow> ''<no value>'')"
    by (simp add: piece_value_def)
  have b: "CHR ''}'' \<notin> set (CHR ''.'' # name)"
    using a(2) ident_char_plain by (auto simp: list_all_iff)
  have "render context None (piece_text (Field name) @ rest)
      = render context (Some []) ((CHR ''.'' # name) @ ''}}'' @ rest)"
    by (simp add: piece_text_def)
  also have "\<dots> = (case render context None rest of
        Inl err \<Rightarrow> Inl err
      | Inr out \<Rightarrow> Inr (piece_value context (Field name) @ out))"
    unfolding render_action [OF b] pv by (simp add: field_of_name [OF a])
  finally show ?thesis .
qed

lemma render_pieces:
  "list_all piece_ok ps \<Longrightarrow> render context None (template_text ps) = Inr (substitute context ps)"
proof (induction ps)
  case Nil
  show ?case by (simp add: template_text_def substitute_def)
next
  case (Cons p ps)
  then have ih: "render context None (template_text ps) = Inr (substitute context ps)"
    and ok: "piece_ok p" by simp_all
  have t: "template_text (p # ps) = piece_text p @ template_text ps"
    by (simp add: template_text_def)
  have s: "substitute context (p # ps) = piece_value context p @ substitute context ps"
    by (simp add: substitute_def)
  show ?case
  proof (cases p)
    case (Text x)
    with ok have "CHR ''{'' \<notin> set x" by (simp add: piece_ok_def)
    from render_text [OF this, of "context" "template_text ps"] show ?thesis
      unfolding t s by (simp add: ih Text piece_text_def piece_value_def)
  next
    case (Field name)
    from render_field [OF ok [unfolded Field], of "context" "template_text ps"] show ?thesis
      unfolding t s by (simp add: ih Field)
  qed
qed

lemma executeSteps_run:
  "\<not> dryRun e \<Longrightarrow> \<forall>h c. sh h c = None \<Longrightarrow>
   \<forall>step \<in> set steps. \<exists>out. resolveTemplate (step_Command step) context = Inr out \<Longrightarrow>
   executeSteps e sh context steps spawned
     = (spawned @ map (\<lambda>c. projr (resolveTemplate c context)) (map step_Command steps), None)"
proof (induction steps arbitrary: spawned)
  case Nil
  show ?case by simp
next
  case (Cons step steps)
  from Cons.prems(3) obtain out where o: "resolveTemplate (step_Command step) context = Inr out"
    by auto
  have r: "runCommand e sh spawned out = None"
    using Cons.prems(2) by (simp add: runCommand_def)
  have "executeSteps e sh context (step # steps) spawned
      = executeSteps e sh context steps (spawned @ [out])"
    using Cons.prems(1) by (simp add: o r)
  also have "\<dots> = ((spawned @ [out])
      @ map (\<lambda>c. projr (resolveTemplate c context)) (map step_Command steps), None)"
    using Cons.prems by (intro Cons.IH) simp_all
  finally show ?case by (simp add: o)
qed

lemma executeCommands_run:
  "\<not> dryRun e \<Longrightarrow> \<forall>h c. sh h c = None \<Longrightarrow>
   \<forall>c \<in> set cmds. \<exists>out. resolveTemplate c context = Inr out \<Longrightarrow>
   executeCommands e sh context cmds spawned
     = (spawned @ map (\<lambda>c. projr (resolveTemplate c context)) cmds, None)"
proof (induction cmds arbitrary: spawned)
  case Nil
  show ?case by simp
next
  case (Cons cmd cmds)
  from Cons.prems(3) obtain out where o: "resolveTemplate cmd context = Inr out"
    by auto
  have r: "runCommand e sh spawned out = None"
    using Cons.prems(2) by (simp add: runCommand_def)
  have "executeCommands e sh context (cmd # cmds) spawned
      = executeCommands e sh context cmds (spawned @ [out])"
    using Cons.prems(1) by (simp add: o r)
  also have "\<dots> = ((spawned @ [out]) @ map (\<lambda>c. projr (resolveTemplate c context)) cmds, None)"
    using Cons.prems by (intro Cons.IH) simp_all
  finally show ?case by (simp add: o)
qed

lemma executeSteps_dry:
  "dryRun e \<Longrightarrow>
   \<forall>step \<in> set steps. \<exists>out. resolveTemplate (step_Command step) context = Inr out \<Longrightarrow>
   executeSteps e sh context steps spawned = (spawned, None)"
  by (induction steps arbitrary: spawned) auto

lemma executeCommands_dry:
  "dryRun e \<Longrightarrow>
   \<forall>c \<in> set cmds. \<exists>out. resolveTemplate c context = Inr out \<Longrightarrow>
   executeCommands e sh context cmds spawned = (spawned, None)"
  by (induction cmds arbitrary: spawned) auto

lemma ExecuteJob_run:
  assumes d: "\<not> dryRun e" and s: "\<forall>h c. sh h c = None"
    and r: "\<forall>c \<in> set (job_templates job).
              \<exists>out. resolveTemplate c (buildTemplateContext job (extractInputs job ''inputs'')) = Inr out"
  shows "ExecuteJob e sh job =
     (map (\<lambda>c. projr (resolveTemplate c (buildTemplateContext job (extractInputs job ''inputs''))))
        (job_templates job), None)"
proof -
  let ?ctx = "buildTemplateContext job (extractInputs job ''inputs'')"
  let ?pre = "extractSteps job ''preSteps''"
  let ?cmds = "extractCommands job ''commands''"
  let ?post = "extractSteps job ''postSteps''"
  let ?r = "\<lambda>c. projr (resolveTemplate c ?ctx)"
  have rp: "\<forall>step \<in> set ?pre. \<exists>out. resolveTemplate (step_Command step) ?ctx = Inr out"
    and rc: "\<forall>c \<in> set ?cmds. \<exists>out. resolveTemplate c ?ctx = Inr out"
    and rq: "\<forall>step \<in> set ?post. \<exists>out. resolveTemplate (step_Command step) ?ctx = Inr out"
    using r by (simp_all add: job_templates_def)
  have 1: "(if length ?pre > 0 then executeSteps e sh ?ctx ?pre [] else ([], None))
      = (map ?r (map step_Command ?pre), None)"
    using executeSteps_run [OF d s rp, of "[]"] by (cases "?pre") simp_all
  have 2: "(if length ?cmds > 0 then executeCommands e sh ?ctx ?cmds spawned else (spawned, None))
      = (spawned @ map ?r ?cmds, None)" for spawned
    using executeCommands_run [OF d s rc, of spawned] by (cases "?cmds") simp_all
  have 3: "(if length ?post > 0 then executeSteps e sh ?ctx ?post spawned else (spawned, None))
      = (spawned @ map ?r (map step_Command ?post), None)" for spawned
    using executeSteps_run [OF d s rq, of spawned] by (cases "?post") simp_all
  show ?thesis
    unfolding ExecuteJob_def Let_def 1 2 3 by (simp add: job_templates_def)
qed

lemma ExecuteJob_dry:
  assumes d: "dryRun e"
    and r: "\<forall>c \<in> set (job_templates job).
              \<exists>out. resolveTemplate c (buildTemplateContext job (extractInputs job ''inputs'')) = Inr out"
  shows "ExecuteJob e sh job = ([], None)"
proof -
  let ?ctx = "buildTemplateContext job (extractInputs job ''inputs'')"
  let ?pre = "extractSteps job ''preSteps''"
  let ?cmds = "extractCommands job ''commands''"
  let ?post = "extractSteps job ''postSteps''"
  have rp: "\<forall>step \<in> set ?pre. \<exists>out. resolveTemplate (step_Command step) ?ctx = Inr out"
    and rc: "\<forall>c \<in> set ?cmds. \<exists>out. resolveTemplate c ?ctx = Inr out"
    and rq: "\<forall>step \<in> set ?post. \<exists>out. resolveTemplate (step_Command step) ?ctx = Inr out"
    using r by (simp_all add: job_templates_def)
  have 1: "(if length ?pre > 0 then executeSteps e sh ?ctx ?pre [] else ([], None)) = ([], None)"
    using executeSteps_dry [OF d rp, of sh "[]"] by simp
  have 2: "(if length ?cmds > 0 then executeCommands e sh ?ctx ?cmds spawned else (spawned, None))
      = (spawned, None)" for spawned
    using executeCommands_dry [OF d rc, of sh spawned] by simp
  have 3: "(if length ?post > 0 then executeSteps e sh ?ctx ?post spawned else (spawned, None))
      = (spawned, None)" for spawned
    using executeSteps_dry [OF d rq, of sh spawned] by simp
  show ?thesis
    unfolding ExecuteJob_def Let_def 1 2 3 by simp
qed

lemma templates_resolve:
  assumes "templates = map template_text pss" "list_all (list_all piece_ok) pss"
  shows "(\<forall>c \<in> set templates. \<exists>out. resolveTemplate c context = Inr out)
         \<and> map (\<lambda>c. projr (resolveTemplate c context)) templates = map (substitute context) pss"
  using assms
  by (auto simp: resolveTemplate_def render_pieces list_all_iff)

text \<open>
  C9. The template context holds, for every key, the stringified input when the inputs
  have the key; else the job's id, component, provider or action under these names; else
  the fallback defaults releaseName (the job's component), namespace, chartPath,
  valuesPath and timeout; and nothing else. A template of text and fields resolves to its
  text with every field replaced by the context's entry. Every command string of a job,
  those of its pre-steps, its main commands and those of its post-steps, is resolved
  against this context: where running is on and every command succeeds, the commands
  spawned are the resolved strings of all three, in this order; in a dry run nothing is
  spawned.
\<close>

theorem template_context_resolution:
  "buildTemplateContext job inputs key =
     (case inputs key of
        Some v \<Rightarrow> Some (fmt_v v)
      | None \<Rightarrow>
          if key = ''id'' then Some (GetID job)
          else if key = ''component'' then Some (GetComponent job)
          else if key = ''provider'' then Some (GetProvider job)
          else if key = ''action'' then Some (GetAction job)
          else if key = ''releaseName'' then Some (GetComponent job)
          else if key = ''namespace'' then Some ''default''
          else if key = ''chartPath'' then Some ''.''
          else if key = ''valuesPath'' then Some ''values.yaml''
          else if key = ''timeout'' then Some ''10m''
          else None)
   \<and> (list_all piece_ok ps \<longrightarrow> resolveTemplate (template_text ps) ctx = Inr (substitute ctx ps))
   \<and> (\<not> dryRun e \<and> (\<forall>h c. sh h c = None)
        \<and> job_templates job = map template_text pss \<and> list_all (list_all piece_ok) pss
        \<longrightarrow> ExecuteJob e sh job
            = (map (substitute (buildTemplateContext job (extractInputs job ''inputs''))) pss, None))
   \<and> (dryRun e \<and> job_templates job = map template_text pss \<and> list_all (list_all piece_ok) pss
        \<longrightarrow> ExecuteJob e sh job = ([], None))"
proof (rule conjI [OF _ conjI [OF _ conjI]])
  show "buildTemplateContext job inputs key =
     (case inputs key of
        Some v \<Rightarrow> Some (fmt_v v)
      | None \<Rightarrow>
          if key = ''id'' then Some (GetID job)
          else if key = ''component'' then Some (GetComponent job)
          else if key = ''provider'' then Some (GetProvider job)
          else if key = ''action'' then Some (GetAction job)
          else if key = ''releaseName'' then Some (GetComponent job)
          else if key = ''namespace'' then Some ''default''
          else if key = ''chartPath'' then Some ''.''
          else if key = ''valuesPath'' then Some ''values.yaml''
          else if key = ''timeout'' then Some ''10m''
          else None)"
  proof (cases "inputs key")
    case None
    then show ?thesis by (simp only: buildTemplateContext_no_input option.case)
  next
    case (Some v)
    then show ?thesis by (simp only: buildTemplateContext_input option.case)
  qed
next
  show "list_all piece_ok ps \<longrightarrow> resolveTemplate (template_text ps) ctx = Inr (substitute ctx ps)"
    by (simp add: resolveTemplate_def render_pieces)
next
  let ?ctx = "buildTemplateContext job (extractInputs job ''inputs'')"
  show "\<not> dryRun e \<and> (\<forall>h c. sh h c = None)
        \<and> job_templates job = map template_text pss \<and> list_all (list_all piece_ok) pss
        \<longrightarrow> ExecuteJob e sh job = (map (substitute ?ctx) pss, None)"
  proof (rule impI)
    assume a: "\<not> dryRun e \<and> (\<forall>h c. sh h c = None)
        \<and> job_templates job = map template_text pss \<and> list_all (list_all piece_ok) pss"
    then have t: "job_templates job = map template_text pss" "list_all (list_all piece_ok) pss"
      by simp_all
    note r = templates_resolve [OF t, of ?ctx]
    from a have "ExecuteJob e sh job
        = (map (\<lambda>c. projr (resolveTemplate c ?ctx)) (job_templates job), None)"
      by (intro ExecuteJob_run r [THEN conjunct1]) simp_all
    then show "ExecuteJob e sh job = (map (substitute ?ctx) pss, None)"
      by (simp only: r [THEN conjunct2])
  qed
next
  show "dryRun e \<and> job_templates job = map template_text pss \<and> list_all (list_all piece_ok) pss
        \<longrightarrow> ExecuteJob e sh job = ([], None)"
  proof (rule impI)
    assume a: "dryRun e \<and> job_templates job = map template_text pss
        \<and> list_all (list_all piece_ok) pss"
    then have t: "job_templates job = map template_text pss" "list_all (list_all piece_ok) pss"
      by simp_all
    note r = templates_resolve [OF t, of "buildTemplateContext job (extractInputs job ''inputs'')"]
    from a show "ExecuteJob e sh job = ([], None)"
      by (intro ExecuteJob_dry r [THEN conjunct1]) simp
  qed
qed

lemma ex_templates:
  "job_templates ex_helm_job = map template_text ex_helm_pieces"
  "job_templates ex_helm_job_no_release = map template_text ex_helm_pieces"
  "job_templates ex_release_job = map template_text ex_release_pieces"
  by code_simp+

lemma ex_pieces_ok:
  "list_all (list_all piece_ok) ex_helm_pieces"
  "list_all (list_all piece_ok) ex_release_pieces"
  "list_all piece_ok ex_echo_pieces"
  by code_simp+

lemma ex_substituted:
  "map (substitute (buildTemplateContext ex_helm_job (extractInputs ex_helm_job ''inputs'')))
     ex_helm_pieces = [''helm template my-app ./c'']"
  "map (substitute (buildTemplateContext ex_helm_job_no_release
                      (extractInputs ex_helm_job_no_release ''inputs'')))
     ex_helm_pieces = [''helm template web ./c'']"
  "map (substitute (buildTemplateContext ex_release_job (extractInputs ex_release_job ''inputs'')))
     ex_release_pieces
     = [''helm repo update --namespace default'',
        ''helm upgrade --install web ./c --timeout 1.8e+06s --atomic=true --history-max 5'',
        ''helm status web # web-apply 30 <no value>'']"
  "template_text ex_echo_pieces = ''echo {{.missing}}''"
  "substitute Map.empty ex_echo_pieces = ''echo <no value>''"
  by code_simp+

theorem template_context_resolution_witness:
  "ExecuteJob ex_executor (\<lambda>h c. None) ex_helm_job = ([''helm template my-app ./c''], None)
   \<and> ExecuteJob ex_executor (\<lambda>h c. None) ex_helm_job_no_release
       = ([''helm template web ./c''], None)
   \<and> ExecuteJob ex_executor (\<lambda>h c. None) ex_release_job
       = ([''helm repo update --namespace default'',
           ''helm upgrade --install web ./c --timeout 1.8e+06s --atomic=true --history-max 5'',
           ''helm status web # web-apply 30 <no value>''], None)
   \<and> ExecuteJob (ex_executor\<lparr>dryRun := True\<rparr>) (\<lambda>h c. Some (1, Msg ''exit status 1''))
         ex_release_job = ([], None)
   \<and> resolveTemplate ''echo {{.missing}}'' Map.empty = Inr ''echo <no value>''"
  using template_context_resolution [of ex_helm_job Map.empty "''id''"
          ex_echo_pieces Map.empty ex_executor "\<lambda>h c. None" ex_helm_pieces]
        template_context_resolution [of ex_helm_job_no_release Map.empty "''id''"
          "[]" Map.empty ex_executor "\<lambda>h c. None" ex_helm_pieces]
        template_context_resolution [of ex_release_job Map.empty "''id''"
          "[]" Map.empty ex_executor "\<lambda>h c. None" ex_release_pieces]
        template_context_resolution [of ex_release_job Map.empty "''id''"
          "[]" Map.empty "ex_executor\<lparr>dryRun := True\<rparr>" "\<lambda>h c. Some (1, Msg ''exit status 1'')"
          ex_release_pieces]
  by (simp add: ex_templates ex_pieces_ok ex_substituted ex_executor_def)

section \<open>Executor: accessors\<close>

lemma strings_of_acc: "strings_of xs acc = acc @ strings_of xs []"
proof (induction xs arbitrary: acc)
  case Nil
  then show ?case by simp
next
  case (Cons x xs)
  show ?case
  proof (cases "\<exists>s. x = VStr s")
    case True
    then obtain s where x: "x = VStr s" by blast
    have "strings_of xs (acc @ [s]) = (acc @ [s]) @ strings_of xs []" by (rule Cons.IH)
    moreover have "strings_of xs [s] = [s] @ strings_of xs []" by (rule Cons.IH)
    ultimately show ?thesis by (simp add: x)
  next
    case False
    then have "strings_of (x # xs) acc = strings_of xs acc" "strings_of (x # xs) [] = strings_of xs []"
      by (cases x; simp)+
    then show ?thesis using Cons.IH [of acc] by simp
  qed
qed

text \<open>
  C10. The accessors of a job map are total: GetID, GetComponent, GetProvider and GetAction
  return the stored string, and the empty string when the key is absent or holds no
  string; GetDependsOn returns the stored string list, the strings of a stored list, and
  the empty list otherwise; extractSteps, extractCommands and extractInputs return empty
  values for absent and ill-typed fields. ExecuteJob on a job without preSteps, commands
  and postSteps spawns no process and returns no error.
\<close>

theorem job_accessors_total:
  "(\<forall>s. j ''id'' = Some (VStr s) \<longrightarrow> GetID j = s)
   \<and> ((\<forall>s. j ''id'' \<noteq> Some (VStr s)) \<longrightarrow> GetID j = [])
   \<and> (\<forall>s. j ''component'' = Some (VStr s) \<longrightarrow> GetComponent j = s)
   \<and> ((\<forall>s. j ''component'' \<noteq> Some (VStr s)) \<longrightarrow> GetComponent j = [])
   \<and> (\<forall>s. j ''provider'' = Some (VStr s) \<longrightarrow> GetProvider j = s)
   \<and> ((\<forall>s. j ''provider'' \<noteq> Some (VStr s)) \<longrightarrow> GetProvider j = [])
   \<and> (\<forall>s. j ''action'' = Some (VStr s) \<longrightarrow> GetAction j = s)
   \<and> ((\<forall>s. j ''action'' \<noteq> Some (VStr s)) \<longrightarrow> GetAction j = [])
   \<and> (\<forall>ds. j ''dependsOn'' = Some (VStrs ds) \<longrightarrow> GetDependsOn j = ds)
   \<and> (\<forall>vs. j ''dependsOn'' = Some (VList vs) \<longrightarrow>
         GetDependsOn j = concat (map (\<lambda>v. case v of VStr s \<Rightarrow> [s] | _ \<Rightarrow> []) vs))
   \<and> ((\<forall>ds. j ''dependsOn'' \<noteq> Some (VStrs ds)) \<and> (\<forall>vs. j ''dependsOn'' \<noteq> Some (VList vs))
         \<longrightarrow> GetDependsOn j = [])
   \<and> ((\<forall>v. j f \<noteq> Some (VSteps v)) \<and> (\<forall>v. j f \<noteq> Some (VList v)) \<longrightarrow> extractSteps j f = [])
   \<and> ((\<forall>v. j f \<noteq> Some (VStrs v)) \<and> (\<forall>v. j f \<noteq> Some (VList v)) \<longrightarrow> extractCommands j f = [])
   \<and> ((\<forall>m. j f \<noteq> Some (VMap m)) \<longrightarrow> extractInputs j f = Map.empty)
   \<and> (j ''preSteps'' = None \<and> j ''commands'' = None \<and> j ''postSteps'' = None
         \<longrightarrow> ExecuteJob e sh j = ([], None))"
proof -
  have so: "strings_of vs [] = concat (map (\<lambda>v. case v of VStr s \<Rightarrow> [s] | _ \<Rightarrow> []) vs)" for vs
  proof (induction vs)
    case Nil
    then show ?case by simp
  next
    case (Cons v vs)
    then show ?case using strings_of_acc [of vs "[s]" for s] by (cases v) simp_all
  qed
  have a1: "\<forall>s. j ''id'' = Some (VStr s) \<longrightarrow> GetID j = s" by (simp add: GetID_def)
  have a2: "(\<forall>s. j ''id'' \<noteq> Some (VStr s)) \<longrightarrow> GetID j = []"
    unfolding GetID_def by (cases "j ''id''") (auto split: any.splits)
  have b1: "\<forall>s. j ''component'' = Some (VStr s) \<longrightarrow> GetComponent j = s" by (simp add: GetComponent_def)
  have b2: "(\<forall>s. j ''component'' \<noteq> Some (VStr s)) \<longrightarrow> GetComponent j = []"
    unfolding GetComponent_def by (cases "j ''component''") (auto split: any.splits)
  have c1: "\<forall>s. j ''provider'' = Some (VStr s) \<longrightarrow> GetProvider j = s" by (simp add: GetProvider_def)
  have c2: "(\<forall>s. j ''provider'' \<noteq> Some (VStr s)) \<longrightarrow> GetProvider j = []"
    unfolding GetProvider_def by (cases "j ''provider''") (auto split: any.splits)
  have d1: "\<forall>s. j ''action'' = Some (VStr s) \<longrightarrow> GetAction j = s" by (simp add: GetAction_def)
  have d2: "(\<forall>s. j ''action'' \<noteq> Some (VStr s)) \<longrightarrow> GetAction j = []"
    unfolding GetAction_def by (cases "j ''action''") (auto split: any.splits)
  have e1: "\<forall>ds. j ''dependsOn'' = Some (VStrs ds) \<longrightarrow> GetDependsOn j = ds"
    by (simp add: GetDependsOn_def)
  have e2: "\<forall>vs. j ''dependsOn'' = Some (VList vs) \<longrightarrow>
         GetDependsOn j = concat (map (\<lambda>v. case v of VStr s \<Rightarrow> [s] | _ \<Rightarrow> []) vs)"
    by (simp add: GetDependsOn_def so)
  have e3: "(\<forall>ds. j ''dependsOn'' \<noteq> Some (VStrs ds)) \<and> (\<forall>vs. j ''dependsOn'' \<noteq> Some (VList vs))
         \<longrightarrow> GetDependsOn j = []"
    unfolding GetDependsOn_def by (cases "j ''dependsOn''") (auto split: any.splits)
  have f1: "(\<forall>v. j f \<noteq> Some (VSteps v)) \<and> (\<forall>v. j f \<noteq> Some (VList v)) \<longrightarrow> extractSteps j f = []"
    unfolding extractSteps_def by (cases "j f") (auto split: any.splits)
  have f2: "(\<forall>v. j f \<noteq> Some (VStrs v)) \<and> (\<forall>v. j f \<noteq> Some (VList v)) \<longrightarrow> extractCommands j f = []"
    unfolding extractCommands_def by (cases "j f") (auto split: any.splits)
  have f3: "(\<forall>m. j f \<noteq> Some (VMap m)) \<longrightarrow> extractInputs j f = Map.empty"
    unfolding extractInputs_def by (cases "j f") (auto split: any.splits)
  have g: "j ''preSteps'' = None \<and> j ''commands'' = None \<and> j ''postSteps'' = None
         \<longrightarrow> ExecuteJob e sh j = ([], None)"
    by (simp add: ExecuteJob_def extractSteps_def extractCommands_def Let_def)
  from a1 a2 b1 b2 c1 c2 d1 d2 e1 e2 e3 f1 f2 f3 g show ?thesis by (intro conjI)
qed

theorem job_accessors_total_witness:
  "GetID Map.empty = [] \<and> GetComponent Map.empty = [] \<and> GetProvider Map.empty = []
   \<and> GetAction Map.empty = [] \<and> GetDependsOn Map.empty = []
   \<and> GetID ex_helm_job = ''web-plan''
   \<and> GetDependsOn [''dependsOn'' \<mapsto> VList [VStr ''a-plan'', VInt 3, VStr ''b-plan'']]
        = [''a-plan'', ''b-plan'']
   \<and> extractSteps [''preSteps'' \<mapsto> VStr ''x''] ''preSteps'' = []
   \<and> extractCommands [''commands'' \<mapsto> VInt 1] ''commands'' = []
   \<and> extractInputs [''inputs'' \<mapsto> VStr ''x''] ''inputs'' = Map.empty
   \<and> ExecuteJob ex_executor (\<lambda>h c. Some (1, Msg ''exit status 1'')) Map.empty = ([], None)"
  using job_accessors_total [of Map.empty "''none''" ex_executor "\<lambda>h c. Some (1, Msg ''exit status 1'')"]
        job_accessors_total [of ex_helm_job "''none''" ex_executor "\<lambda>h c. None"]
        job_accessors_total [of "[''dependsOn'' \<mapsto> VList [VStr ''a-plan'', VInt 3, VStr ''b-plan'']]"
           "''none''" ex_executor "\<lambda>h c. None"]
        job_accessors_total [of "[''preSteps'' \<mapsto> VStr ''x'']" "''preSteps''" ex_executor "\<lambda>h c. None"]
        job_accessors_total [of "[''commands'' \<mapsto> VInt 1]" "''commands''" ex_executor "\<lambda>h c. None"]
        job_accessors_total [of "[''inputs'' \<mapsto> VStr ''x'']" "''inputs''" ex_executor "\<lambda>h c. None"]
  by (simp add: ex_helm_job_def)

section \<open>Change detection and component types\<close>

text \<open>
  C7 at the change set \<^verbatim>\<open>docs/old-intent.yaml\<close>, whose file name is neither
  \<^verbatim>\<open>intent.yaml\<close> nor \<^verbatim>\<open>sourceplane.yaml\<close>: the detector tests the suffix of the
  whole path, so both components are reported with the reason of a changed intent.
\<close>

theorem DetectChanges_suffix_match:
  "map (\<lambda>c. (cc_ComponentName c, cc_Reason c, cc_AffectedPaths c))
     (DetectChanges ex_runtime [ex_intent] [''docs/old-intent.yaml''])
   = [(''eks'', ''Intent definition changed'', [''docs/old-intent.yaml'']),
      (''vpc'', ''Intent definition changed'', [''docs/old-intent.yaml''])]"
  by code_simp

text \<open>
  C8, as stated, at a component of type \<^verbatim>\<open>foo\<close> with a provider registered under
  that name: planning succeeds and emits the component's jobs.
\<close>

theorem GeneratePlan_dotless_type_counterexample:
  "map_sum error_text (\<lambda>p. map job_ID (plan_Jobs p))
     (GeneratePlan ex_runtime [''foo'' \<mapsto> ex_foo_provider]
        (ex_plan_request\<lparr>ChangedFiles := [''foo/cache/main.tf'']\<rparr>) [ex_foo_intent])
   = Inr [''cache-validate'', ''cache-plan'']"
  by code_simp

lemma Split_no_separator: "sep \<notin> set s \<Longrightarrow> Split s sep = [s]"
  by (induction s) auto

lemma extractProvider_dotless: "CHR ''.'' \<notin> set t \<Longrightarrow> extractProvider t = t"
  by (simp add: extractProvider_def Split_no_separator)

lemma checkComponentAffected_provider:
  "checkComponentAffected rt c files = Some ch \<Longrightarrow> cc_Provider ch = extractProvider (comp_Type c)"
  by (auto simp: checkComponentAffected_def Let_def split: if_splits)

lemma expand_loop_error:
  "expand_loop registry intents req changes nodes = Inl err \<Longrightarrow> expansion_error err"
proof (induction changes arbitrary: nodes)
  case Nil
  then show ?case by simp
next
  case (Cons change changes)
  show ?case
  proof (cases "registry (cc_Provider change)")
    case None
    then show ?thesis using Cons.prems
      by (auto simp: GetProvider_registry_def expansion_error_def)
  next
    case (Some pm)
    show ?thesis
    proof (cases "findComponent (cc_ComponentName change) intents")
      case None
      then show ?thesis using Cons.prems Some
        by (auto simp: GetProvider_registry_def expansion_error_def)
    next
      case (Some c)
      then show ?thesis using Cons.prems \<open>registry (cc_Provider change) = Some pm\<close> Cons.IH
        by (auto simp: GetProvider_registry_def)
    qed
  qed
qed

text \<open>
  C8, amended. A component whose type has no dot is consumed like any other: the change
  record takes the whole type as its provider, and GeneratePlan knows no malformed-intent
  error; when it fails, the error is an unregistered provider or a missing component,
  wrapped by the expansion stage, or the circular dependency.
\<close>

theorem GeneratePlan_no_malformed_intent:
  "(CHR ''.'' \<notin> set (comp_Type c) \<and> checkComponentAffected rt c files = Some ch
      \<longrightarrow> cc_Provider ch = comp_Type c)
   \<and> (GeneratePlan rt registry req intents = Inl err \<longrightarrow>
        (\<exists>e. err = Wrapped ''component expansion failed: '' e \<and> expansion_error e)
        \<or> err = Wrapped ''dependency graph construction failed: ''
                  (Msg ''circular dependency detected in component graph''))"
proof (intro conjI impI)
  assume "CHR ''.'' \<notin> set (comp_Type c) \<and> checkComponentAffected rt c files = Some ch"
  then show "cc_Provider ch = comp_Type c"
    using checkComponentAffected_provider [of rt c files ch]
      extractProvider_dotless [of "comp_Type c"] by simp
next
  assume e: "GeneratePlan rt registry req intents = Inl err"
  let ?changes = "DetectChanges rt intents (ChangedFiles req)"
  show "(\<exists>e. err = Wrapped ''component expansion failed: '' e \<and> expansion_error e)
        \<or> err = Wrapped ''dependency graph construction failed: ''
                  (Msg ''circular dependency detected in component graph'')"
  proof (cases "expandComponents registry ?changes intents req")
    case (Inl x)
    then have "expansion_error x" using expand_loop_error by (simp add: expandComponents_def)
    moreover have "err = Wrapped ''component expansion failed: '' x"
      using e Inl by (simp add: GeneratePlan_def Let_def split: if_splits)
    ultimately show ?thesis by blast
  next
    case (Inr nodes)
    then show ?thesis using e
      by (cases "buildDependencyGraph rt nodes")
         (auto simp: GeneratePlan_def Let_def buildDependencyGraph_def split: if_splits)
  qed
qed

lemma ex_cache_affected:
  "checkComponentAffected ex_runtime ex_cache [''foo/cache/main.tf''] = Some ex_cache_change"
  by code_simp

lemma ex_cache_unregistered_case:
  "(case GeneratePlan ex_runtime Map.empty
           (ex_plan_request\<lparr>ChangedFiles := [''foo/cache/main.tf'']\<rparr>) [ex_foo_intent] of
      Inl err \<Rightarrow>
        err = Wrapped ''component expansion failed: ''
                (Wrapped (''provider '' @ quoted ''foo'' @ '' not found: '')
                   (Msg (''provider '' @ quoted ''foo'' @ '' not registered'')))
    | Inr plan \<Rightarrow> False)"
  by code_simp

lemma ex_cache_unregistered:
  "GeneratePlan ex_runtime Map.empty (ex_plan_request\<lparr>ChangedFiles := [''foo/cache/main.tf'']\<rparr>)
     [ex_foo_intent]
   = Inl (Wrapped ''component expansion failed: ''
           (Wrapped (''provider '' @ quoted ''foo'' @ '' not found: '')
              (Msg (''provider '' @ quoted ''foo'' @ '' not registered''))))"
  using ex_cache_unregistered_case
  by (cases "GeneratePlan ex_runtime Map.empty
           (ex_plan_request\<lparr>ChangedFiles := [''foo/cache/main.tf'']\<rparr>) [ex_foo_intent]") simp_all

theorem GeneratePlan_no_malformed_intent_witness:
  "CHR ''.'' \<notin> set (comp_Type ex_cache)
   \<and> checkComponentAffected ex_runtime ex_cache [''foo/cache/main.tf''] = Some ex_cache_change
   \<and> cc_Provider ex_cache_change = comp_Type ex_cache
   \<and> GeneratePlan ex_runtime Map.empty (ex_plan_request\<lparr>ChangedFiles := [''foo/cache/main.tf'']\<rparr>)
        [ex_foo_intent]
      = Inl (Wrapped ''component expansion failed: ''
              (Wrapped (''provider '' @ quoted ''foo'' @ '' not found: '')
                 (Msg (''provider '' @ quoted ''foo'' @ '' not registered''))))
   \<and> expansion_error (Wrapped (''provider '' @ quoted ''foo'' @ '' not found: '')
                         (Msg (''provider '' @ quoted ''foo'' @ '' not registered'')))"
proof -
  have d: "CHR ''.'' \<notin> set (comp_Type ex_cache)" by (simp add: ex_cache_def)
  note t = GeneratePlan_no_malformed_intent [of ex_cache ex_runtime "[''foo/cache/main.tf'']"
      ex_cache_change Map.empty "ex_plan_request\<lparr>ChangedFiles := [''foo/cache/main.tf'']\<rparr>"
      "[ex_foo_intent]"
      "Wrapped ''component expansion failed: ''
         (Wrapped (''provider '' @ quoted ''foo'' @ '' not found: '')
            (Msg (''provider '' @ quoted ''foo'' @ '' not registered'')))"]
  from t d ex_cache_affected have 1: "cc_Provider ex_cache_change = comp_Type ex_cache" by blast
  from t ex_cache_unregistered
  have 2: "expansion_error (Wrapped (''provider '' @ quoted ''foo'' @ '' not found: '')
                         (Msg (''provider '' @ quoted ''foo'' @ '' not registered'')))"
    by auto
  from d ex_cache_affected 1 ex_cache_unregistered 2 show ?thesis by (intro conjI)
qed

section \<open>Dependency graph: Kahn's algorithm\<close>

definition all_deps :: "DependencyNode list \<Rightarrow> string \<Rightarrow> string list" where
  "all_deps nodes name =
     concat (map dn_Dependencies (filter (\<lambda>node. dn_ComponentName node = name) nodes))"

definition changed_deps :: "DependencyNode list \<Rightarrow> string \<Rightarrow> string list" where
  "changed_deps nodes name = filter (\<lambda>d. d \<in> set (node_names nodes)) (all_deps nodes name)"

lemma neighbours_of_update:
  "neighbours_of (AList.update k v g) k' = (if k' = k then v else neighbours_of g k')"
  by (simp add: neighbours_of_def update_conv')

lemma node_of_update:
  "node_of (AList.update k v m) k' = (if k' = k then v else node_of m k')"
  by (simp add: node_of_def update_conv')

subsection \<open>The initial maps\<close>

lemma init_loop_dom:
  "fst ` set (gs_nodeMap (init_loop nodes st)) = fst ` set (gs_nodeMap st) \<union> set (node_names nodes)"
  "fst ` set (gs_inDegree (init_loop nodes st)) = fst ` set (gs_inDegree st) \<union> set (node_names nodes)"
proof (induction nodes arbitrary: st)
  case Nil
  {
    case 1
    then show ?case by (simp add: node_names_def)
  next
    case 2
    then show ?case by (simp add: node_names_def)
  }
next
  case (Cons node nodes)
  {
    case 1
    show ?case by (simp add: Cons.IH(1) dom_update node_names_def Un_commute Un_left_commute)
  next
    case 2
    show ?case by (simp add: Cons.IH(2) dom_update node_names_def Un_commute Un_left_commute)
  }
qed

lemma init_loop_distinct:
  "distinct (map fst (gs_inDegree st)) \<Longrightarrow> distinct (map fst (gs_inDegree (init_loop nodes st)))"
  by (induction nodes arbitrary: st) (simp_all add: distinct_update)

lemma init_loop_degree:
  "(\<forall>n. degree_of (gs_inDegree st) n = 0) \<Longrightarrow> degree_of (gs_inDegree (init_loop nodes st)) n = 0"
  by (induction nodes arbitrary: st) (simp_all add: degree_of_update)

lemma init_loop_neighbours:
  "(\<forall>n. neighbours_of (gs_graph st) n = []) \<Longrightarrow> neighbours_of (gs_graph (init_loop nodes st)) n = []"
  by (induction nodes arbitrary: st) (simp_all add: neighbours_of_update)

lemma init_loop_node_of:
  "n \<in> set (node_names nodes) \<Longrightarrow>
   node_of (gs_nodeMap (init_loop nodes st)) n \<in> set nodes
   \<and> dn_ComponentName (node_of (gs_nodeMap (init_loop nodes st)) n) = n"
proof (induction nodes arbitrary: st rule: rev_induct)
  case Nil
  then show ?case by (simp add: node_names_def)
next
  case (snoc node nodes)
  have split: "init_loop (nodes @ [node]) st =
      (let st' = init_loop nodes st in
       \<lparr>gs_graph = AList.update (dn_ComponentName node) [] (gs_graph st'),
        gs_inDegree = AList.update (dn_ComponentName node) 0 (gs_inDegree st'),
        gs_nodeMap = AList.update (dn_ComponentName node) node (gs_nodeMap st')\<rparr>)" for st
    by (induction nodes arbitrary: st) (simp_all add: Let_def)
  show ?case
  proof (cases "n = dn_ComponentName node")
    case True
    then show ?thesis by (simp add: split Let_def node_of_update)
  next
    case False
    then have "n \<in> set (node_names nodes)" using snoc.prems by (simp add: node_names_def)
    then show ?thesis using snoc.IH [of st] False by (simp add: split Let_def node_of_update)
  qed
qed

lemma init_loop_node_of_distinct:
  "distinct (node_names nodes) \<Longrightarrow> node \<in> set nodes \<Longrightarrow>
   node_of (gs_nodeMap (init_loop nodes st)) (dn_ComponentName node) = node"
proof -
  assume d: "distinct (node_names nodes)" and n: "node \<in> set nodes"
  let ?m = "node_of (gs_nodeMap (init_loop nodes st)) (dn_ComponentName node)"
  have "?m \<in> set nodes \<and> dn_ComponentName ?m = dn_ComponentName node"
    using init_loop_node_of [of "dn_ComponentName node" nodes st] n by (simp add: node_names_def)
  then show "?m = node"
    using d n by (metis distinct_map inj_onD node_names_def)
qed

subsection \<open>The edges\<close>

lemma deps_loop_nodeMap: "gs_nodeMap (deps_loop name deps st) = gs_nodeMap st"
  by (induction deps arbitrary: st) simp_all

lemma deps_loop_keys:
  "name \<in> fst ` set (gs_inDegree st) \<Longrightarrow>
   fst ` set (gs_inDegree (deps_loop name deps st)) = fst ` set (gs_inDegree st)"
  by (induction deps arbitrary: st) (auto simp: dom_update)

lemma deps_loop_distinct:
  "distinct (map fst (gs_inDegree st)) \<Longrightarrow> distinct (map fst (gs_inDegree (deps_loop name deps st)))"
  by (induction deps arbitrary: st) (simp_all add: distinct_update)

lemma deps_loop_degree:
  "degree_of (gs_inDegree (deps_loop name deps st)) k =
     degree_of (gs_inDegree st) k
     + (if k = name then int (length (filter (\<lambda>d. map_of (gs_nodeMap st) d \<noteq> None) deps)) else 0)"
proof (induction deps arbitrary: st)
  case Nil
  then show ?case by simp
next
  case (Cons dep deps)
  show ?case
  proof (cases "map_of (gs_nodeMap st) dep = None")
    case True
    then show ?thesis by (simp add: Cons.IH)
  next
    case False
    then show ?thesis by (simp add: Cons.IH degree_of_update)
  qed
qed

lemma deps_loop_neighbours:
  "count_list (neighbours_of (gs_graph (deps_loop name deps st)) d) n =
     count_list (neighbours_of (gs_graph st) d) n
     + (if n = name \<and> map_of (gs_nodeMap st) d \<noteq> None then count_list deps d else 0)"
proof (induction deps arbitrary: st)
  case Nil
  then show ?case by simp
next
  case (Cons dep deps)
  show ?case
  proof (cases "map_of (gs_nodeMap st) dep = None")
    case True
    then show ?thesis by (auto simp: Cons.IH)
  next
    case False
    then show ?thesis by (auto simp: Cons.IH neighbours_of_update)
  qed
qed

lemma edges_loop_nodeMap: "gs_nodeMap (edges_loop nodes st) = gs_nodeMap st"
  by (induction nodes arbitrary: st) (simp_all add: deps_loop_nodeMap)

lemma edges_loop_keys:
  "set (node_names nodes) \<subseteq> fst ` set (gs_inDegree st) \<Longrightarrow>
   fst ` set (gs_inDegree (edges_loop nodes st)) = fst ` set (gs_inDegree st)"
  by (induction nodes arbitrary: st) (simp_all add: deps_loop_keys node_names_def)

lemma edges_loop_distinct:
  "distinct (map fst (gs_inDegree st)) \<Longrightarrow> distinct (map fst (gs_inDegree (edges_loop nodes st)))"
  by (induction nodes arbitrary: st) (simp_all add: deps_loop_distinct)

lemma all_deps_Cons:
  "all_deps (node # nodes) k =
     (if dn_ComponentName node = k then dn_Dependencies node else []) @ all_deps nodes k"
  by (simp add: all_deps_def)

lemma edges_loop_degree:
  "degree_of (gs_inDegree (edges_loop nodes st)) k =
     degree_of (gs_inDegree st) k
     + int (length (filter (\<lambda>d. map_of (gs_nodeMap st) d \<noteq> None) (all_deps nodes k)))"
proof (induction nodes arbitrary: st)
  case Nil
  then show ?case by (simp add: all_deps_def)
next
  case (Cons node nodes)
  show ?case
    by (simp add: Cons.IH deps_loop_degree deps_loop_nodeMap all_deps_Cons)
qed

lemma edges_loop_neighbours:
  "count_list (neighbours_of (gs_graph (edges_loop nodes st)) d) n =
     count_list (neighbours_of (gs_graph st) d) n
     + (if map_of (gs_nodeMap st) d \<noteq> None then count_list (all_deps nodes n) d else 0)"
proof (induction nodes arbitrary: st)
  case Nil
  then show ?case by (simp add: all_deps_def)
next
  case (Cons node nodes)
  show ?case
    by (simp add: Cons.IH deps_loop_neighbours deps_loop_nodeMap all_deps_Cons)
qed

subsection \<open>The maps Kahn's algorithm starts from\<close>

definition built :: "DependencyNode list \<Rightarrow> graph_state" where
  "built nodes = edges_loop nodes (init_loop nodes \<lparr>gs_graph = [], gs_inDegree = [], gs_nodeMap = []\<rparr>)"

lemma built_known: "map_of (gs_nodeMap (built nodes)) d \<noteq> None \<longleftrightarrow> d \<in> set (node_names nodes)"
proof -
  have "fst ` set (gs_nodeMap (built nodes)) = set (node_names nodes)"
    by (simp add: built_def edges_loop_nodeMap init_loop_dom)
  then show ?thesis
    by (metis domIff dom_map_of_conv_image_fst)
qed

lemma built_keys: "fst ` set (gs_inDegree (built nodes)) = set (node_names nodes)"
  by (simp add: built_def edges_loop_keys init_loop_dom)

lemma built_distinct: "distinct (map fst (gs_inDegree (built nodes)))"
  by (simp add: built_def edges_loop_distinct init_loop_distinct)

lemma built_degree: "degree_of (gs_inDegree (built nodes)) n = int (length (changed_deps nodes n))"
proof -
  let ?st = "init_loop nodes \<lparr>gs_graph = [], gs_inDegree = [], gs_nodeMap = []\<rparr>"
  have k: "map_of (gs_nodeMap ?st) d \<noteq> None \<longleftrightarrow> d \<in> set (node_names nodes)" for d
    using built_known [of nodes d] by (simp add: built_def edges_loop_nodeMap)
  have "degree_of (gs_inDegree ?st) n = 0"
    by (rule init_loop_degree) (simp add: degree_of_def)
  then show ?thesis
    by (simp add: built_def edges_loop_degree changed_deps_def k del: not_None_eq)
qed

lemma built_neighbours:
  "count_list (neighbours_of (gs_graph (built nodes)) d) n =
     (if d \<in> set (node_names nodes) then count_list (all_deps nodes n) d else 0)"
proof -
  let ?st = "init_loop nodes \<lparr>gs_graph = [], gs_inDegree = [], gs_nodeMap = []\<rparr>"
  have k: "map_of (gs_nodeMap ?st) d \<noteq> None \<longleftrightarrow> d \<in> set (node_names nodes)" for d
    using built_known [of nodes d] by (simp add: built_def edges_loop_nodeMap)
  have "neighbours_of (gs_graph ?st) d = []"
    by (rule init_loop_neighbours) (simp add: neighbours_of_def)
  then show ?thesis
    by (simp add: built_def edges_loop_neighbours k del: not_None_eq)
qed

lemma built_node_of:
  "n \<in> set (node_names nodes) \<Longrightarrow>
   node_of (gs_nodeMap (built nodes)) n \<in> set nodes
   \<and> dn_ComponentName (node_of (gs_nodeMap (built nodes)) n) = n"
  by (simp add: built_def edges_loop_nodeMap init_loop_node_of)

lemma built_node_of_distinct:
  "distinct (node_names nodes) \<Longrightarrow> node \<in> set nodes \<Longrightarrow>
   node_of (gs_nodeMap (built nodes)) (dn_ComponentName node) = node"
  by (simp add: built_def edges_loop_nodeMap init_loop_node_of_distinct)

subsection \<open>One round of Kahn's algorithm\<close>

lemma neighbours_loop_degree:
  "degree_of (fst (neighbours_loop ns st)) n = degree_of (fst st) n - int (count_list ns n)"
  by (induction ns arbitrary: st) (simp_all add: Let_def degree_of_update)

lemma neighbours_loop_queue:
  "\<exists>pushed. snd (neighbours_loop ns st) = snd st @ pushed \<and> distinct pushed
     \<and> set pushed = {n. 1 \<le> degree_of (fst st) n \<and> degree_of (fst st) n \<le> int (count_list ns n)}"
proof (induction ns arbitrary: st)
  case Nil
  then show ?case by auto
next
  case (Cons a ns)
  let ?d = "AList.update a (degree_of (fst st) a - 1) (fst st)"
  let ?st = "(?d, if degree_of ?d a = 0 then snd st @ [a] else snd st)"
  obtain pushed where p: "snd (neighbours_loop ns ?st) = snd ?st @ pushed" "distinct pushed"
    "set pushed = {n. 1 \<le> degree_of (fst ?st) n \<and> degree_of (fst ?st) n \<le> int (count_list ns n)}"
    using Cons.IH [of ?st] by blast
  let ?first = "if degree_of (fst st) a = 1 then [a] else []"
  have 1: "snd (neighbours_loop (a # ns) st) = snd st @ (?first @ pushed)"
    using p(1) by (simp add: Let_def degree_of_update)
  have 2: "distinct (?first @ pushed)"
    using p(2) p(3) by (simp add: degree_of_update)
  have 3: "set (?first @ pushed) =
      {n. 1 \<le> degree_of (fst st) n \<and> degree_of (fst st) n \<le> int (count_list (a # ns) n)}"
    unfolding set_append p(3) by (auto simp: degree_of_update)
  from 1 2 3 show ?case by blast
qed

lemma length_filter_insert:
  "c \<notin> S \<Longrightarrow>
   int (length (filter (\<lambda>d. d \<notin> insert c S) xs))
     = int (length (filter (\<lambda>d. d \<notin> S) xs)) - int (count_list xs c)"
  by (induction xs) auto

lemma count_list_filter: "count_list (filter P xs) c = (if P c then count_list xs c else 0)"
  by (induction xs) auto

definition topo :: "DependencyNode list \<Rightarrow> string list \<Rightarrow> bool" where
  "topo nodes done =
     (\<forall>pre n post. done = pre @ n # post \<longrightarrow> set (changed_deps nodes n) \<subseteq> set pre)"

definition kahn_inv ::
  "DependencyNode list \<Rightarrow> string list \<Rightarrow> string list \<Rightarrow> (string \<times> int) list \<Rightarrow> bool" where
  "kahn_inv nodes queue done inDegree =
     (distinct (done @ queue) \<and> set (done @ queue) \<subseteq> set (node_names nodes)
      \<and> (\<forall>n \<in> set (node_names nodes).
            degree_of inDegree n = int (length (filter (\<lambda>d. d \<notin> set done) (changed_deps nodes n))))
      \<and> (\<forall>n \<in> set (node_names nodes). n \<in> set (done @ queue) \<longleftrightarrow> degree_of inDegree n = 0)
      \<and> topo nodes done)"

definition kahn_final :: "DependencyNode list \<Rightarrow> string list \<Rightarrow> bool" where
  "kahn_final nodes done =
     (distinct done \<and> set done \<subseteq> set (node_names nodes) \<and> topo nodes done
      \<and> (\<forall>n \<in> set (node_names nodes). n \<notin> set done \<longrightarrow>
            (\<exists>d \<in> set (changed_deps nodes n). d \<notin> set done)))"

lemma topo_snoc:
  "topo nodes done \<Longrightarrow> set (changed_deps nodes c) \<subseteq> set done \<Longrightarrow> topo nodes (done @ [c])"
  unfolding topo_def
proof (intro allI impI)
  fix pre n post
  assume t: "\<forall>pre n post. done = pre @ n # post \<longrightarrow> set (changed_deps nodes n) \<subseteq> set pre"
    and c: "set (changed_deps nodes c) \<subseteq> set done" and e: "done @ [c] = pre @ n # post"
  show "set (changed_deps nodes n) \<subseteq> set pre"
  proof (cases post rule: rev_cases)
    case Nil
    then show ?thesis using e c by simp
  next
    case (snoc post' x)
    then have "done = pre @ n # post'" using e by simp
    then show ?thesis using t by blast
  qed
qed

lemma kahn_step:
  assumes inv: "kahn_inv nodes (current # queue) done inDegree"
  shows "kahn_inv nodes
           (snd (neighbours_loop (neighbours_of (gs_graph (built nodes)) current) (inDegree, queue)))
           (done @ [current])
           (fst (neighbours_loop (neighbours_of (gs_graph (built nodes)) current) (inDegree, queue)))"
proof -
  let ?N = "set (node_names nodes)"
  let ?ns = "neighbours_of (gs_graph (built nodes)) current"
  let ?st = "neighbours_loop ?ns (inDegree, queue)"
  let ?D = "changed_deps nodes"
  from inv have dist: "distinct (done @ current # queue)"
    and sub: "set (done @ current # queue) \<subseteq> ?N"
    and deg: "\<And>n. n \<in> ?N \<Longrightarrow>
        degree_of inDegree n = int (length (filter (\<lambda>d. d \<notin> set done) (?D n)))"
    and zero: "\<And>n. n \<in> ?N \<Longrightarrow> n \<in> set (done @ current # queue) \<longleftrightarrow> degree_of inDegree n = 0"
    and tp: "topo nodes done"
    by (simp_all add: kahn_inv_def)
  have cur: "current \<in> ?N" "current \<notin> set done" using dist sub by auto
  have cnt: "count_list ?ns n = count_list (?D n) current" for n
    using cur(1) by (simp add: built_neighbours changed_deps_def count_list_filter)
  have deg': "degree_of (fst ?st) n = int (length (filter (\<lambda>d. d \<notin> set (done @ [current])) (?D n)))"
    if "n \<in> ?N" for n
    using length_filter_insert [OF cur(2), of "?D n"] deg [OF that]
    by (simp add: neighbours_loop_degree cnt)
  obtain pushed where p: "snd ?st = queue @ pushed" "distinct pushed"
    "set pushed = {n. 1 \<le> degree_of inDegree n \<and> degree_of inDegree n \<le> int (count_list ?ns n)}"
    using neighbours_loop_queue [of ?ns "(inDegree, queue)"] by auto
  have known: "n \<in> ?N" if "n \<in> set pushed" for n
  proof -
    from that p(3) have "0 < count_list (?D n) current" by (auto simp: cnt)
    then have "?D n \<noteq> []" by auto
    then have "all_deps nodes n \<noteq> []" by (auto simp: changed_deps_def)
    then obtain node where "node \<in> set nodes" "dn_ComponentName node = n"
      by (auto simp: all_deps_def)
    then show ?thesis by (auto simp: node_names_def)
  qed
  have pushed_iff: "n \<in> set pushed \<longleftrightarrow> 1 \<le> degree_of inDegree n \<and> degree_of (fst ?st) n = 0"
    if "n \<in> ?N" for n
  proof -
    have "0 \<le> degree_of (fst ?st) n" using deg' [OF that] by simp
    then show ?thesis using p(3) by (auto simp: neighbours_loop_degree)
  qed
  have nonneg: "0 \<le> degree_of inDegree n" if "n \<in> ?N" for n using deg [OF that] by simp
  have a1: "distinct ((done @ [current]) @ snd ?st)"
  proof -
    have "n \<notin> set (done @ current # queue)" if "n \<in> set pushed" for n
      using zero [OF known [OF that]] pushed_iff [OF known [OF that]] that by auto
    then show ?thesis using dist p(1) p(2) by auto
  qed
  have a2: "set ((done @ [current]) @ snd ?st) \<subseteq> ?N"
    using sub p(1) known by auto
  have a4: "n \<in> set ((done @ [current]) @ snd ?st) \<longleftrightarrow> degree_of (fst ?st) n = 0" if "n \<in> ?N" for n
  proof
    assume "n \<in> set ((done @ [current]) @ snd ?st)"
    then consider "n \<in> set (done @ current # queue)" | "n \<in> set pushed" using p(1) by auto
    then show "degree_of (fst ?st) n = 0"
    proof cases
      case 1
      then have "degree_of inDegree n = 0" using zero [OF that] by simp
      moreover have "0 \<le> degree_of (fst ?st) n" using deg' [OF that] by simp
      ultimately show ?thesis by (simp add: neighbours_loop_degree)
    next
      case 2
      then show ?thesis using pushed_iff [OF that] by simp
    qed
  next
    assume z: "degree_of (fst ?st) n = 0"
    show "n \<in> set ((done @ [current]) @ snd ?st)"
    proof (cases "degree_of inDegree n = 0")
      case True
      then show ?thesis using zero [OF that] p(1) by auto
    next
      case False
      then have "1 \<le> degree_of inDegree n" using nonneg [OF that] by simp
      then have "n \<in> set pushed" using pushed_iff [OF that] z by simp
      then show ?thesis using p(1) by simp
    qed
  qed
  have a5: "topo nodes (done @ [current])"
  proof (rule topo_snoc [OF tp])
    have "degree_of inDegree current = 0" using zero [OF cur(1)] by simp
    then have "filter (\<lambda>d. d \<notin> set done) (?D current) = []" using deg [OF cur(1)] by simp
    then show "set (?D current) \<subseteq> set done" by (auto simp: filter_empty_conv)
  qed
  show ?thesis
    unfolding kahn_inv_def using a1 a2 deg' a4 a5 by blast
qed

lemma kahn_inv_final: "kahn_inv nodes [] done inDegree \<Longrightarrow> kahn_final nodes done"
  unfolding kahn_inv_def kahn_final_def
proof (intro conjI ballI impI)
  fix n
  assume inv: "distinct (done @ []) \<and> set (done @ []) \<subseteq> set (node_names nodes)
      \<and> (\<forall>n \<in> set (node_names nodes).
            degree_of inDegree n = int (length (filter (\<lambda>d. d \<notin> set done) (changed_deps nodes n))))
      \<and> (\<forall>n \<in> set (node_names nodes). n \<in> set (done @ []) \<longleftrightarrow> degree_of inDegree n = 0)
      \<and> topo nodes done"
    and n: "n \<in> set (node_names nodes)" "n \<notin> set done"
  then have "filter (\<lambda>d. d \<notin> set done) (changed_deps nodes n) \<noteq> []" by auto
  then show "\<exists>d \<in> set (changed_deps nodes n). d \<notin> set done"
    by (auto simp: filter_empty_conv)
qed auto

lemma kahn_loop_result:
  "kahn_inv nodes queue done inDegree \<Longrightarrow>
   \<exists>rest. kahn_loop (gs_graph (built nodes)) nodeMap queue sortedNodes inDegree
             = sortedNodes @ map (node_of nodeMap) rest
           \<and> kahn_final nodes (done @ rest)"
proof (induction "gs_graph (built nodes)" nodeMap queue sortedNodes inDegree arbitrary: "done"
       rule: kahn_loop.induct)
  case (1 nodeMap sortedNodes inDegree)
  then have "kahn_final nodes done" by (rule kahn_inv_final)
  then show ?case by (intro exI [of _ "[]"]) simp
next
  case (2 nodeMap current queue sortedNodes inDegree)
  let ?st = "neighbours_loop (neighbours_of (gs_graph (built nodes)) current) (inDegree, queue)"
  have "kahn_inv nodes (snd ?st) (done @ [current]) (fst ?st)"
    using "2.prems" by (rule kahn_step)
  from "2.hyps" [OF refl this]
  obtain rest where r:
    "kahn_loop (gs_graph (built nodes)) nodeMap (snd ?st) (sortedNodes @ [node_of nodeMap current]) (fst ?st)
       = (sortedNodes @ [node_of nodeMap current]) @ map (node_of nodeMap) rest"
    "kahn_final nodes ((done @ [current]) @ rest)"
    by blast
  show ?case
    by (intro exI [of _ "current # rest"]) (use r in \<open>simp add: Let_def\<close>)
qed

subsection \<open>The whole sort\<close>

lemma seed_inv:
  assumes "visits_each_key_once (range_inDegree rt)"
  shows "kahn_inv nodes (seed_queue rt (gs_inDegree (built nodes))) [] (gs_inDegree (built nodes))"
proof -
  let ?m = "gs_inDegree (built nodes)"
  let ?ks = "map fst ?m"
  let ?o = "range_inDegree rt ?ks"
  have m: "mset ?o = mset ?ks"
    using assms built_distinct [of nodes] by (simp add: visits_each_key_once_def)
  have d: "distinct ?o" using m built_distinct [of nodes] by (metis mset_eq_imp_distinct_iff)
  have s: "set ?o = set (node_names nodes)"
    using m built_keys [of nodes] by (metis mset_eq_setD set_map)
  have z: "n \<in> set (seed_queue rt ?m) \<longleftrightarrow> degree_of ?m n = 0" if "n \<in> set (node_names nodes)" for n
  proof -
    from that built_keys [of nodes] have "n \<in> fst ` set ?m" by simp
    then obtain v where "map_of ?m n = Some v"
      by (metis domD dom_map_of_conv_image_fst)
    then show ?thesis using that s by (simp add: seed_queue_def degree_of_def)
  qed
  have t: "topo nodes []" by (simp add: topo_def)
  show ?thesis
    unfolding kahn_inv_def using d s z t
    by (auto simp: seed_queue_def built_degree)
qed

lemma buildDependencyGraph_done:
  assumes "visits_each_key_once (range_inDegree rt)"
  shows "\<exists>done. kahn_final nodes done
           \<and> buildDependencyGraph rt nodes =
               (if length done \<noteq> length nodes
                then Inl (Msg ''circular dependency detected in component graph'')
                else Inr (map (node_of (gs_nodeMap (built nodes))) done))"
proof -
  obtain rest where r:
    "kahn_loop (gs_graph (built nodes)) (gs_nodeMap (built nodes))
       (seed_queue rt (gs_inDegree (built nodes))) [] (gs_inDegree (built nodes))
     = [] @ map (node_of (gs_nodeMap (built nodes))) rest"
    "kahn_final nodes ([] @ rest)"
    using kahn_loop_result [OF seed_inv [OF assms]] by blast
  show ?thesis
    by (intro exI [of _ rest]) (use r in \<open>simp add: buildDependencyGraph_def Let_def built_def\<close>)
qed

lemma changed_deps_edge:
  "d \<in> set (changed_deps nodes n) \<Longrightarrow> (d, n) \<in> dep_edges nodes"
  by (auto simp: changed_deps_def all_deps_def dep_edges_def)

lemma edge_changed_deps:
  "(d, n) \<in> dep_edges nodes \<Longrightarrow> d \<in> set (changed_deps nodes n) \<and> n \<in> set (node_names nodes)"
  by (auto simp: changed_deps_def all_deps_def dep_edges_def node_names_def)

lemma finite_dep_edges: "finite (dep_edges nodes)"
proof -
  have "dep_edges nodes \<subseteq> set (node_names nodes) \<times> set (node_names nodes)"
    by (auto simp: dep_edges_def node_names_def)
  then show ?thesis by (rule finite_subset) simp
qed

lemma kahn_final_complete:
  assumes f: "kahn_final nodes done" and a: "acyclic (dep_edges nodes)"
  shows "set done = set (node_names nodes)"
proof (rule ccontr)
  assume ne: "set done \<noteq> set (node_names nodes)"
  let ?R = "set (node_names nodes) - set done"
  from f have sub: "set done \<subseteq> set (node_names nodes)" by (simp add: kahn_final_def)
  with ne obtain x where x: "x \<in> ?R" by auto
  have "wf (dep_edges nodes)" using finite_dep_edges a by (rule finite_acyclic_wf)
  then obtain z where z: "z \<in> ?R" "\<And>y. (y, z) \<in> dep_edges nodes \<Longrightarrow> y \<notin> ?R"
    using x by (rule wfE_min) blast
  from f z(1) obtain d where d: "d \<in> set (changed_deps nodes z)" "d \<notin> set done"
    by (auto simp: kahn_final_def)
  then have "d \<in> set (node_names nodes)" by (simp add: changed_deps_def)
  with d(2) have "d \<in> ?R" by simp
  moreover have "(d, z) \<in> dep_edges nodes" using d(1) by (rule changed_deps_edge)
  ultimately show False using z(2) by blast
qed

lemma length_takeWhile_less: "x \<in> set xs \<Longrightarrow> length (takeWhile (\<lambda>y. y \<noteq> x) xs) < length xs"
  by (induction xs) auto

lemma kahn_final_acyclic:
  assumes f: "kahn_final nodes done" and s: "set done = set (node_names nodes)"
  shows "acyclic (dep_edges nodes)"
proof -
  let ?pos = "\<lambda>x. length (takeWhile (\<lambda>y. y \<noteq> x) done)"
  have "dep_edges nodes \<subseteq> inv_image less_than ?pos"
  proof
    fix e assume e: "e \<in> dep_edges nodes"
    obtain d n where dn: "e = (d, n)" by (cases e)
    from e dn edge_changed_deps [of d n nodes]
    have d: "d \<in> set (changed_deps nodes n)" and n: "n \<in> set done" using s by auto
    from n obtain pre post where sp: "done = pre @ n # post" by (auto simp: in_set_conv_decomp)
    from f have "distinct done" "topo nodes done" by (simp_all add: kahn_final_def)
    then have np: "n \<notin> set pre" and dp: "d \<in> set pre" using sp d by (auto simp: topo_def)
    have "takeWhile (\<lambda>y. y \<noteq> n) (pre @ n # post) = pre"
      using np by (induction pre) auto
    then have "?pos n = length pre" by (simp add: sp)
    moreover have "?pos d < length pre"
      using dp length_takeWhile_less [of d pre] by (simp add: sp takeWhile_append1)
    ultimately show "e \<in> inv_image less_than ?pos" by (simp add: dn)
  qed
  moreover have "wf (inv_image less_than ?pos)" by simp
  ultimately have "wf (dep_edges nodes)" by (rule wf_subset [rotated])
  then show ?thesis by (rule wf_acyclic)
qed

lemma kahn_final_all:
  assumes f: "kahn_final nodes done" and l: "length done = length nodes"
  shows "set done = set (node_names nodes)"
proof -
  from f have d: "distinct done" and sub: "set done \<subseteq> set (node_names nodes)"
    by (simp_all add: kahn_final_def)
  have "card (set (node_names nodes)) \<le> length nodes"
    using card_length [of "node_names nodes"] by (simp add: node_names_def)
  also have "\<dots> = card (set done)" using d l by (simp add: distinct_card)
  finally show ?thesis using sub by (simp add: card_seteq)
qed

lemma sorted_nodes_mset:
  assumes dn: "distinct (node_names nodes)" and d: "distinct done"
    and s: "set done = set (node_names nodes)"
  shows "mset (map (node_of (gs_nodeMap (built nodes))) done) = mset nodes"
proof -
  have "mset done = mset (node_names nodes)"
    using dn d s by (simp add: set_eq_iff_mset_eq_distinct)
  then have "mset (map (node_of (gs_nodeMap (built nodes))) done)
      = mset (map (node_of (gs_nodeMap (built nodes))) (node_names nodes))"
    by (metis mset_map)
  also have "map (node_of (gs_nodeMap (built nodes))) (node_names nodes) = nodes"
    unfolding node_names_def map_map
    by (rule map_idI) (simp add: built_node_of_distinct [OF dn])
  finally show ?thesis .
qed

lemma buildDependencyGraph_cycle:
  assumes v: "visits_each_key_once (range_inDegree rt)" and c: "\<not> acyclic (dep_edges nodes)"
  shows "buildDependencyGraph rt nodes = Inl (Msg ''circular dependency detected in component graph'')"
proof -
  obtain "done" where f: "kahn_final nodes done"
    and r: "buildDependencyGraph rt nodes =
               (if length done \<noteq> length nodes
                then Inl (Msg ''circular dependency detected in component graph'')
                else Inr (map (node_of (gs_nodeMap (built nodes))) done))"
    using buildDependencyGraph_done [OF v] by blast
  have "length done \<noteq> length nodes"
    using kahn_final_acyclic [OF f kahn_final_all [OF f]] c by blast
  then show ?thesis using r by simp
qed

lemma buildDependencyGraph_sorted:
  assumes v: "visits_each_key_once (range_inDegree rt)"
    and r: "buildDependencyGraph rt nodes = Inr sortedNodes"
  shows "\<exists>done. sortedNodes = map (node_of (gs_nodeMap (built nodes))) done
           \<and> distinct done \<and> set done = set (node_names nodes) \<and> topo nodes done
           \<and> acyclic (dep_edges nodes)"
proof -
  obtain "done" where f: "kahn_final nodes done"
    and r': "buildDependencyGraph rt nodes =
               (if length done \<noteq> length nodes
                then Inl (Msg ''circular dependency detected in component graph'')
                else Inr (map (node_of (gs_nodeMap (built nodes))) done))"
    using buildDependencyGraph_done [OF v] by blast
  from r r' have l: "length done = length nodes"
    and s: "sortedNodes = map (node_of (gs_nodeMap (built nodes))) done"
    by (auto split: if_splits)
  have a: "set done = set (node_names nodes)" using f l by (rule kahn_final_all)
  show ?thesis
    using f s a kahn_final_acyclic [OF f a] by (auto simp: kahn_final_def)
qed

lemma buildDependencyGraph_acyclic:
  assumes v: "visits_each_key_once (range_inDegree rt)" and dn: "distinct (node_names nodes)"
    and a: "acyclic (dep_edges nodes)"
  shows "\<exists>sortedNodes. buildDependencyGraph rt nodes = Inr sortedNodes \<and> mset sortedNodes = mset nodes"
proof -
  obtain "done" where f: "kahn_final nodes done"
    and r: "buildDependencyGraph rt nodes =
               (if length done \<noteq> length nodes
                then Inl (Msg ''circular dependency detected in component graph'')
                else Inr (map (node_of (gs_nodeMap (built nodes))) done))"
    using buildDependencyGraph_done [OF v] by blast
  have s: "set done = set (node_names nodes)" using f a by (rule kahn_final_complete)
  from f have d: "distinct done" by (simp add: kahn_final_def)
  have m: "mset (map (node_of (gs_nodeMap (built nodes))) done) = mset nodes"
    using dn d s by (rule sorted_nodes_mset)
  then have "length done = length nodes" by (metis length_map size_mset)
  then show ?thesis using r m by simp
qed

subsection \<open>The changed components have distinct names\<close>

definition keyed_by_name :: "(string \<times> ComponentChange) list \<Rightarrow> bool" where
  "keyed_by_name changes =
     (distinct (map fst changes) \<and> (\<forall>k ch. map_of changes k = Some ch \<longrightarrow> cc_ComponentName ch = k))"

lemma checkComponentAffected_name:
  "checkComponentAffected rt c files = Some ch \<Longrightarrow> cc_ComponentName ch = comp_Name c"
  by (auto simp: checkComponentAffected_def Let_def split: if_splits)

lemma components_loop_keyed:
  "keyed_by_name changes \<Longrightarrow> keyed_by_name (components_loop rt files cs changes)"
proof (induction cs arbitrary: changes)
  case Nil
  then show ?case by simp
next
  case (Cons c cs)
  show ?case
  proof (cases "checkComponentAffected rt c files")
    case None
    then show ?thesis using Cons by simp
  next
    case (Some change)
    note ch = checkComponentAffected_name [OF Some]
    show ?thesis
    proof (cases "map_of changes (comp_Name c)")
      case None
      have "keyed_by_name (AList.update (comp_Name c) change changes)"
        using Cons.prems ch by (auto simp: keyed_by_name_def distinct_update update_conv')
      then show ?thesis using Some None Cons.IH by simp
    next
      case (Some existing)
      have "keyed_by_name (AList.update (comp_Name c)
          (existing\<lparr>cc_AffectedPaths := cc_AffectedPaths existing @ cc_AffectedPaths change\<rparr>) changes)"
        using Cons.prems Some by (auto simp: keyed_by_name_def distinct_update update_conv')
      then show ?thesis
        using \<open>checkComponentAffected rt c files = Some change\<close> Some Cons.IH by simp
    qed
  qed
qed

lemma intents_loop_keyed:
  "keyed_by_name changes \<Longrightarrow> keyed_by_name (intents_loop rt files intents changes)"
  by (induction intents arbitrary: changes) (simp_all add: components_loop_keyed)

lemma map_filter_names:
  "\<forall>x \<in> set xs. \<exists>y. f x = Some y \<and> g y = x \<Longrightarrow> map g (List.map_filter f xs) = xs"
  by (induction xs) (auto simp: map_filter_simps)

lemma DetectChanges_distinct:
  assumes "visits_each_key_once (range_changes rt)"
  shows "distinct (map cc_ComponentName (DetectChanges rt intents files))"
proof -
  let ?changes = "intents_loop rt files intents []"
  let ?o = "range_changes rt (map fst ?changes)"
  have k: "keyed_by_name ?changes"
    by (rule intents_loop_keyed) (simp add: keyed_by_name_def)
  then have m: "mset ?o = mset (map fst ?changes)"
    using assms by (simp add: visits_each_key_once_def keyed_by_name_def)
  have d: "distinct ?o" using m k by (metis keyed_by_name_def mset_eq_imp_distinct_iff)
  have "\<exists>y. map_of ?changes x = Some y \<and> cc_ComponentName y = x" if "x \<in> set ?o" for x
  proof -
    from that m have "x \<in> fst ` set ?changes" by (metis mset_eq_setD set_map)
    then obtain y where "map_of ?changes x = Some y"
      by (metis domD dom_map_of_conv_image_fst)
    then show ?thesis using k by (auto simp: keyed_by_name_def)
  qed
  then have "map cc_ComponentName (List.map_filter (map_of ?changes) ?o) = ?o"
    by (intro map_filter_names) blast
  then show ?thesis using d by (simp add: DetectChanges_def Let_def)
qed

subsection \<open>The expanded nodes\<close>

definition expanded :: "ProviderRegistry \<Rightarrow> PlanRequest \<Rightarrow> DependencyNode \<Rightarrow> bool" where
  "expanded registry req node =
     (\<exists>providerMeta. registry (dn_Provider node) = Some providerMeta
        \<and> dn_Actions node = determineActions (Mode req) providerMeta)"

lemma expand_loop_nodes:
  "expand_loop registry intents req changes nodes = Inr nodes' \<Longrightarrow>
   node_names nodes' = node_names nodes @ map cc_ComponentName changes
   \<and> (\<forall>node \<in> set nodes'. node \<in> set nodes \<or> expanded registry req node)"
proof (induction changes arbitrary: nodes)
  case Nil
  then show ?case by auto
next
  case (Cons change changes)
  from Cons.prems obtain pm where pm: "registry (cc_Provider change) = Some pm"
    by (cases "registry (cc_Provider change)") (auto simp: GetProvider_registry_def)
  from Cons.prems pm obtain c where c: "findComponent (cc_ComponentName change) intents = Some c"
    by (cases "findComponent (cc_ComponentName change) intents")
       (auto simp: GetProvider_registry_def)
  let ?node = "\<lparr>dn_ComponentName = cc_ComponentName change, dn_Provider = cc_Provider change,
      dn_Actions = determineActions (Mode req) pm,
      dn_Dependencies = extractDependencies c intents\<rparr>"
  have "expand_loop registry intents req changes (nodes @ [?node]) = Inr nodes'"
    using Cons.prems pm c by (simp add: GetProvider_registry_def)
  from Cons.IH [OF this] have
    n: "node_names nodes' = node_names (nodes @ [?node]) @ map cc_ComponentName changes"
    and e: "\<forall>node \<in> set nodes'. node \<in> set (nodes @ [?node]) \<or> expanded registry req node"
    by blast+
  have "expanded registry req ?node" by (simp add: expanded_def pm)
  with e have "\<forall>node \<in> set nodes'. node \<in> set nodes \<or> expanded registry req node" by auto
  with n show ?case by (simp add: node_names_def)
qed

lemma expandComponents_nodes:
  "expandComponents registry changes intents req = Inr nodes \<Longrightarrow>
   node_names nodes = map cc_ComponentName changes \<and> (\<forall>node \<in> set nodes. expanded registry req node)"
  using expand_loop_nodes [of registry intents req changes "[]" nodes]
  by (simp add: expandComponents_def node_names_def)

lemma GeneratePlan_after_expansion:
  assumes e: "expandComponents registry (DetectChanges rt intents (ChangedFiles req)) intents req = Inr nodes"
  shows "GeneratePlan rt registry req intents =
     (case buildDependencyGraph rt nodes of
        Inl err \<Rightarrow> Inl (Wrapped ''dependency graph construction failed: '' err)
      | Inr sortedNodes \<Rightarrow>
          Inr \<lparr>plan_Target = Target req, plan_Mode = Mode req,
               plan_Metadata = plan_metadata rt req,
               plan_Jobs = generateJobs registry sortedNodes req\<rparr>)
     \<or> (nodes = [] \<and> GeneratePlan rt registry req intents = Inr (createEmptyPlan rt req))"
proof (cases "ChangedOnly req \<and> length (DetectChanges rt intents (ChangedFiles req)) = 0")
  case True
  then have "nodes = []" using e by (simp add: expandComponents_def)
  then show ?thesis using True by (simp add: GeneratePlan_def Let_def)
next
  case False
  then show ?thesis using e by (auto simp: GeneratePlan_def Let_def)
qed

lemma buildDependencyGraph_empty: "buildDependencyGraph rt [] = Inr []"
  by (simp add: buildDependencyGraph_def Let_def seed_queue_def)

text \<open>
  C2. Let the expansion stage return the nodes of the changed components, and let the
  two ranges visit the keys of their maps in any order. If the dependency edges among the
  nodes contain a cycle, buildDependencyGraph fails with the
  circular dependency error and GeneratePlan returns that error, wrapped, and no plan. If
  they contain none, the sort returns every node, and GeneratePlan returns the plan whose
  jobs are generated from the sorted nodes.
\<close>

theorem GeneratePlan_cycle_detection:
  assumes "visits_each_key_once (range_changes rt)" and "visits_each_key_once (range_inDegree rt)"
    and "expandComponents registry (DetectChanges rt intents (ChangedFiles req)) intents req = Inr nodes"
  shows "((\<exists>x. (x, x) \<in> (dep_edges nodes)\<^sup>+) \<longrightarrow>
           buildDependencyGraph rt nodes
             = Inl (Msg ''circular dependency detected in component graph'')
           \<and> GeneratePlan rt registry req intents
             = Inl (Wrapped ''dependency graph construction failed: ''
                     (Msg ''circular dependency detected in component graph'')))
       \<and> (\<not> (\<exists>x. (x, x) \<in> (dep_edges nodes)\<^sup>+) \<longrightarrow>
           (\<exists>sortedNodes plan. buildDependencyGraph rt nodes = Inr sortedNodes
              \<and> mset sortedNodes = mset nodes
              \<and> GeneratePlan rt registry req intents = Inr plan
              \<and> plan_Jobs plan = generateJobs registry sortedNodes req))"
proof (rule conjI; rule impI)
  assume "\<exists>x. (x, x) \<in> (dep_edges nodes)\<^sup>+"
  then have c: "\<not> acyclic (dep_edges nodes)" by (simp add: acyclic_def)
  have b: "buildDependencyGraph rt nodes = Inl (Msg ''circular dependency detected in component graph'')"
    using assms(2) c by (rule buildDependencyGraph_cycle)
  then have "nodes \<noteq> []" using buildDependencyGraph_empty [of rt] by auto
  then have "GeneratePlan rt registry req intents
             = Inl (Wrapped ''dependency graph construction failed: ''
                     (Msg ''circular dependency detected in component graph''))"
    using GeneratePlan_after_expansion [OF assms(3)] b by simp
  with b show "buildDependencyGraph rt nodes
             = Inl (Msg ''circular dependency detected in component graph'')
           \<and> GeneratePlan rt registry req intents
             = Inl (Wrapped ''dependency graph construction failed: ''
                     (Msg ''circular dependency detected in component graph''))" by simp
next
  assume "\<not> (\<exists>x. (x, x) \<in> (dep_edges nodes)\<^sup>+)"
  then have a: "acyclic (dep_edges nodes)" by (simp add: acyclic_def)
  have "distinct (node_names nodes)"
    using expandComponents_nodes [OF assms(3)] DetectChanges_distinct [OF assms(1)] by simp
  from buildDependencyGraph_acyclic [OF assms(2) this a]
  obtain sortedNodes where s: "buildDependencyGraph rt nodes = Inr sortedNodes"
    "mset sortedNodes = mset nodes" by blast
  from GeneratePlan_after_expansion [OF assms(3)]
  have "\<exists>plan. GeneratePlan rt registry req intents = Inr plan
           \<and> plan_Jobs plan = generateJobs registry sortedNodes req"
  proof
    assume "GeneratePlan rt registry req intents =
     (case buildDependencyGraph rt nodes of
        Inl err \<Rightarrow> Inl (Wrapped ''dependency graph construction failed: '' err)
      | Inr sortedNodes \<Rightarrow>
          Inr \<lparr>plan_Target = Target req, plan_Mode = Mode req,
               plan_Metadata = plan_metadata rt req,
               plan_Jobs = generateJobs registry sortedNodes req\<rparr>)"
    then show ?thesis using s(1) by simp
  next
    assume n: "nodes = [] \<and> GeneratePlan rt registry req intents = Inr (createEmptyPlan rt req)"
    then have "sortedNodes = []" using s(2) by simp
    then show ?thesis using n by (simp add: createEmptyPlan_def generateJobs_def)
  qed
  with s show "\<exists>sortedNodes plan. buildDependencyGraph rt nodes = Inr sortedNodes
              \<and> mset sortedNodes = mset nodes
              \<and> GeneratePlan rt registry req intents = Inr plan
              \<and> plan_Jobs plan = generateJobs registry sortedNodes req" by blast
qed

lemma visits_each_key_once_rev: "visits_each_key_once rev"
  by (simp add: visits_each_key_once_def)

lemma ex_cyclic_expand:
  "expandComponents [''terraform'' \<mapsto> ex_tf]
     (DetectChanges ex_runtime [ex_cyclic_intent] (ChangedFiles ex_intent_request))
     [ex_cyclic_intent] ex_intent_request = Inr ex_cyclic_nodes"
  by code_simp

lemma ex_linear_expand:
  "expandComponents [''terraform'' \<mapsto> ex_tf]
     (DetectChanges ex_runtime [ex_intent] (ChangedFiles ex_plan_request))
     [ex_intent] ex_plan_request = Inr ex_linear_nodes"
  by code_simp

lemma ex_cyclic_cycle: "(''a'', ''a'') \<in> (dep_edges ex_cyclic_nodes)\<^sup>+"
proof -
  have "(''a'', ''b'') \<in> dep_edges ex_cyclic_nodes" "(''b'', ''a'') \<in> dep_edges ex_cyclic_nodes"
    by (simp_all add: dep_edges_def ex_cyclic_nodes_def node_names_def) force+
  then show ?thesis by (meson trancl.intros)
qed

lemma ex_linear_acyclic: "\<not> (\<exists>x. (x, x) \<in> (dep_edges ex_linear_nodes)\<^sup>+)"
proof -
  have "dep_edges ex_linear_nodes \<subseteq> {(''vpc'', ''eks'')}"
    by (auto simp: dep_edges_def ex_linear_nodes_def node_names_def)
  moreover have "acyclic {(''vpc'', ''eks'')}"
    by (rule acyclicI_order [of _ "\<lambda>x. if x = ''vpc'' then (1::nat) else 0"]) simp
  ultimately have "acyclic (dep_edges ex_linear_nodes)" by (metis acyclic_subset)
  then show ?thesis by (simp add: acyclic_def)
qed

theorem GeneratePlan_cycle_detection_witness:
  "visits_each_key_once (range_changes ex_runtime)
   \<and> visits_each_key_once (range_inDegree ex_runtime)
   \<and> expandComponents [''terraform'' \<mapsto> ex_tf]
        (DetectChanges ex_runtime [ex_cyclic_intent] (ChangedFiles ex_intent_request))
        [ex_cyclic_intent] ex_intent_request = Inr ex_cyclic_nodes
   \<and> (\<exists>x. (x, x) \<in> (dep_edges ex_cyclic_nodes)\<^sup>+)
   \<and> GeneratePlan ex_runtime [''terraform'' \<mapsto> ex_tf] ex_intent_request [ex_cyclic_intent]
        = Inl (Wrapped ''dependency graph construction failed: ''
                (Msg ''circular dependency detected in component graph''))
   \<and> expandComponents [''terraform'' \<mapsto> ex_tf]
        (DetectChanges ex_runtime [ex_intent] (ChangedFiles ex_plan_request))
        [ex_intent] ex_plan_request = Inr ex_linear_nodes
   \<and> \<not> (\<exists>x. (x, x) \<in> (dep_edges ex_linear_nodes)\<^sup>+)
   \<and> (\<exists>sortedNodes plan. buildDependencyGraph ex_runtime ex_linear_nodes = Inr sortedNodes
         \<and> mset sortedNodes = mset ex_linear_nodes
         \<and> GeneratePlan ex_runtime [''terraform'' \<mapsto> ex_tf] ex_plan_request [ex_intent] = Inr plan
         \<and> plan_Jobs plan = generateJobs [''terraform'' \<mapsto> ex_tf] sortedNodes ex_plan_request)"
proof -
  have v: "visits_each_key_once (range_changes ex_runtime)"
    "visits_each_key_once (range_inDegree ex_runtime)"
    by (simp_all add: ex_runtime_def visits_each_key_once_rev)
  have c: "\<exists>x. (x, x) \<in> (dep_edges ex_cyclic_nodes)\<^sup>+" using ex_cyclic_cycle by blast
  note t1 = GeneratePlan_cycle_detection [OF v ex_cyclic_expand, THEN conjunct1, rule_format, OF c]
  note t2 = GeneratePlan_cycle_detection [OF v ex_linear_expand, THEN conjunct2, rule_format,
      OF ex_linear_acyclic]
  from v c t1 t2 ex_cyclic_expand ex_linear_expand ex_linear_acyclic show ?thesis by blast
qed

section \<open>Plans are well-formed\<close>

subsection \<open>Job ids\<close>

lemma takeWhile_stop:
  "\<forall>x \<in> set xs. P x \<Longrightarrow> \<not> P y \<Longrightarrow> takeWhile P (xs @ y # ys) = xs"
  by (induction xs) auto

lemma job_id_inject:
  assumes "CHR ''-'' \<notin> set a" and "CHR ''-'' \<notin> set a'" and "job_id n a = job_id n' a'"
  shows "n = n' \<and> a = a'"
proof -
  let ?f = "\<lambda>s. takeWhile (\<lambda>c. c \<noteq> CHR ''-'') (rev s)"
  have r: "?f (job_id m b) = rev b" if "CHR ''-'' \<notin> set b" for m b
  proof -
    have "rev (job_id m b) = rev b @ CHR ''-'' # rev m" by (simp add: job_id_def)
    moreover have "takeWhile (\<lambda>c. c \<noteq> CHR ''-'') (rev b @ CHR ''-'' # rev m) = rev b"
      by (rule takeWhile_stop) (use that in auto)
    ultimately show ?thesis by simp
  qed
  have "rev a = rev a'" using r [OF assms(1), of n] r [OF assms(2), of n'] assms(3) by simp
  then have "a = a'" by simp
  then show ?thesis using assms(3) by (simp add: job_id_def)
qed

lemma determineActions_names:
  "distinct (determineActions mode p)
   \<and> set (determineActions mode p) \<subseteq> {''validate'', ''plan'', ''apply'', ''destroy''}"
  by (simp add: determineActions_def append_if_supported_def Let_def)

lemma determineActions_no_dash: "a \<in> set (determineActions mode p) \<Longrightarrow> CHR ''-'' \<notin> set a"
proof -
  assume "a \<in> set (determineActions mode p)"
  then have "a \<in> {''validate'', ''plan'', ''apply'', ''destroy''}"
    using determineActions_names [of mode p] by blast
  then consider "a = ''validate''" | "a = ''plan''" | "a = ''apply''" | "a = ''destroy''" by blast
  then show ?thesis by cases simp_all
qed

definition job_ids :: "DependencyNode \<Rightarrow> string list" where
  "job_ids node = map (job_id (dn_ComponentName node)) (dn_Actions node)"

lemma node_jobs_ids:
  "registry (dn_Provider node) \<noteq> None \<Longrightarrow>
   map job_ID (node_jobs registry nodes req node) = job_ids node"
proof -
  assume "registry (dn_Provider node) \<noteq> None"
  then obtain pm where pm: "registry (dn_Provider node) = Some pm" by blast
  have "map job_ID (map (\<lambda>k. make_job pm nodes req node k (dn_Actions node ! k))
          [0..<length (dn_Actions node)])
        = map (\<lambda>k. job_id (dn_ComponentName node) (dn_Actions node ! k)) [0..<length (dn_Actions node)]"
    by (simp add: make_job_def)
  also have "\<dots> = map (job_id (dn_ComponentName node)) (map ((!) (dn_Actions node)) [0..<length (dn_Actions node)])"
    by simp
  also have "\<dots> = job_ids node" by (simp only: map_nth job_ids_def)
  finally show ?thesis by (simp add: node_jobs_def pm)
qed

lemma distinct_job_ids: "distinct (dn_Actions node) \<Longrightarrow> distinct (job_ids node)"
  by (simp add: job_ids_def distinct_map inj_on_def job_id_def)

definition plain_actions :: "DependencyNode \<Rightarrow> bool" where
  "plain_actions node =
     (distinct (dn_Actions node) \<and> (\<forall>a \<in> set (dn_Actions node). CHR ''-'' \<notin> set a))"

lemma job_ids_disjoint:
  assumes "plain_actions node" "plain_actions node'"
    and "dn_ComponentName node \<noteq> dn_ComponentName node'"
  shows "set (job_ids node) \<inter> set (job_ids node') = {}"
proof (rule ccontr)
  assume "set (job_ids node) \<inter> set (job_ids node') \<noteq> {}"
  then obtain x where "x \<in> set (job_ids node)" "x \<in> set (job_ids node')" by blast
  then obtain a a' where a: "a \<in> set (dn_Actions node)" "x = job_id (dn_ComponentName node) a"
    and a': "a' \<in> set (dn_Actions node')" "x = job_id (dn_ComponentName node') a'"
    by (auto simp: job_ids_def)
  have "CHR ''-'' \<notin> set a" "CHR ''-'' \<notin> set a'"
    using assms(1,2) a(1) a'(1) by (simp_all add: plain_actions_def)
  from job_id_inject [OF this] a(2) a'(2) assms(3) show False by simp
qed

lemma distinct_all_job_ids:
  "distinct (node_names nodes) \<Longrightarrow> \<forall>node \<in> set nodes. plain_actions node \<Longrightarrow>
   distinct (concat (map job_ids nodes))"
proof (induction nodes)
  case Nil
  then show ?case by simp
next
  case (Cons node nodes)
  have "set (job_ids node) \<inter> set (job_ids node') = {}" if "node' \<in> set nodes" for node'
  proof (rule job_ids_disjoint)
    show "plain_actions node" "plain_actions node'" using Cons.prems(2) that by simp_all
    show "dn_ComponentName node \<noteq> dn_ComponentName node'"
      using Cons.prems(1) that by (auto simp: node_names_def)
  qed
  moreover have "distinct (job_ids node)"
    using Cons.prems(2) by (simp add: distinct_job_ids plain_actions_def)
  moreover have "distinct (concat (map job_ids nodes))"
    using Cons by (simp add: node_names_def)
  ultimately show ?case by auto
qed

lemma generateJobs_ids:
  "\<forall>node \<in> set nodes. registry (dn_Provider node) \<noteq> None \<Longrightarrow>
   map job_ID (generateJobs registry nodes req) = concat (map job_ids nodes)"
proof -
  assume r: "\<forall>node \<in> set nodes. registry (dn_Provider node) \<noteq> None"
  have "map job_ID (concat (map (node_jobs registry all req) ns)) = concat (map job_ids ns)"
    if "\<forall>node \<in> set ns. registry (dn_Provider node) \<noteq> None" for ns all
    using that by (induction ns) (simp_all add: node_jobs_ids)
  from this [OF r] show ?thesis by (simp add: generateJobs_eq)
qed

subsection \<open>Dependencies point backwards\<close>

primrec deps_before :: "string set \<Rightarrow> Job list \<Rightarrow> bool" where
  "deps_before seen [] = True"
| "deps_before seen (j # js) =
     (set (job_DependsOn j) \<subseteq> seen \<and> deps_before (insert (job_ID j) seen) js)"

lemma deps_before_append:
  "deps_before seen (xs @ ys) = (deps_before seen xs \<and> deps_before (seen \<union> job_ID ` set xs) ys)"
  by (induction xs arbitrary: seen) (auto simp: insert_commute Un_commute)

lemma deps_before_nth:
  "deps_before seen js \<Longrightarrow> i < length js \<Longrightarrow> d \<in> set (job_DependsOn (js ! i)) \<Longrightarrow>
   d \<in> seen \<or> (\<exists>k < i. job_ID (js ! k) = d)"
proof (induction js arbitrary: seen i)
  case Nil
  then show ?case by simp
next
  case (Cons j js)
  show ?case
  proof (cases i)
    case 0
    then show ?thesis using Cons.prems by auto
  next
    case (Suc i')
    with Cons.prems have "deps_before (insert (job_ID j) seen) js" "i' < length js"
      "d \<in> set (job_DependsOn (js ! i'))" by simp_all
    from Cons.IH [OF this] have "d = job_ID j \<or> d \<in> seen \<or> (\<exists>k < i'. job_ID (js ! k) = d)" by auto
    then show ?thesis
    proof (elim disjE)
      assume "d = job_ID j"
      then have "job_ID ((j # js) ! 0) = d" by simp
      then show ?thesis using Suc by blast
    next
      assume "d \<in> seen" then show ?thesis by simp
    next
      assume "\<exists>k < i'. job_ID (js ! k) = d"
      then obtain k where "k < i'" "job_ID (js ! k) = d" by blast
      then have "Suc k < i" "job_ID ((j # js) ! Suc k) = d" using Suc by simp_all
      then show ?thesis by blast
    qed
  qed
qed

lemma node_block:
  assumes "i \<le> length (dn_Actions node)"
    and "i = 0 \<Longrightarrow> set (job_deps all node 0) \<subseteq> seen"
    and "i > 0 \<Longrightarrow> job_id (dn_ComponentName node) (dn_Actions node ! (i - 1)) \<in> seen"
  shows "deps_before seen
           (map (\<lambda>k. make_job pm all req node k (dn_Actions node ! k)) [i..<length (dn_Actions node)])"
  using assms
proof (induction "length (dn_Actions node) - i" arbitrary: i seen)
  case 0
  then show ?case by simp
next
  case (Suc m)
  then have lt: "i < length (dn_Actions node)" by simp
  let ?j = "make_job pm all req node i (dn_Actions node ! i)"
  have d: "set (job_DependsOn ?j) \<subseteq> seen"
    using Suc.prems(2,3) by (cases "i = 0") (simp_all add: make_job_def job_deps_def)
  have "deps_before (insert (job_ID ?j) seen)
      (map (\<lambda>k. make_job pm all req node k (dn_Actions node ! k)) [Suc i..<length (dn_Actions node)])"
  proof (rule Suc.hyps(1))
    show "m = length (dn_Actions node) - Suc i" using Suc.hyps(2) by simp
    show "Suc i \<le> length (dn_Actions node)" using lt by simp
    show "job_id (dn_ComponentName node) (dn_Actions node ! (Suc i - 1)) \<in> insert (job_ID ?j) seen"
      by (simp add: make_job_def)
  qed simp
  then show ?case using d lt by (simp add: upt_conv_Cons)
qed

lemma findNode_Some: "findNode d nodes = Some dn \<Longrightarrow> dn \<in> set nodes \<and> dn_ComponentName dn = d"
  by (induction nodes) (auto split: if_splits)

definition deps_sorted :: "DependencyNode list \<Rightarrow> bool" where
  "deps_sorted nodes =
     (\<forall>pre node post. nodes = pre @ node # post \<longrightarrow>
        (\<forall>d \<in> set (dn_Dependencies node). d \<in> set (node_names nodes) \<longrightarrow> d \<in> set (node_names pre)))"

lemma node_loop_deps_before:
  assumes dn: "distinct (node_names all)" and ds: "deps_sorted all"
    and reg: "\<forall>node \<in> set all. registry (dn_Provider node) \<noteq> None"
  shows "all = pre @ suf \<Longrightarrow> (\<Union>node \<in> set pre. set (job_ids node)) \<subseteq> seen \<Longrightarrow>
         deps_before seen (concat (map (node_jobs registry all req) suf))"
proof (induction suf arbitrary: pre seen)
  case Nil
  then show ?case by simp
next
  case (Cons node suf)
  from reg Cons.prems(1) obtain pm where pm: "registry (dn_Provider node) = Some pm" by auto
  have first: "set (job_deps all node 0) \<subseteq> seen"
  proof
    fix x assume "x \<in> set (job_deps all node 0)"
    then obtain d where d: "d \<in> set (dn_Dependencies node)" "has_actions all d"
      "x = last_action_job all d"
      by (auto simp: job_deps_def first_action_deps_eq)
    then obtain depNode where f: "findNode d all = Some depNode" "dn_Actions depNode \<noteq> []"
      by (auto simp: has_actions_def split: option.splits)
    then have m: "depNode \<in> set all" "dn_ComponentName depNode = d" using findNode_Some by blast+
    then have "d \<in> set (node_names all)" by (auto simp: node_names_def)
    with ds Cons.prems(1) d(1) have "d \<in> set (node_names pre)" unfolding deps_sorted_def by blast
    then obtain n' where n': "n' \<in> set pre" "dn_ComponentName n' = d" by (auto simp: node_names_def)
    then have "n' \<in> set all" using Cons.prems(1) by simp
    with dn m n' have "n' = depNode" by (metis distinct_map inj_onD node_names_def)
    moreover have "x \<in> set (job_ids depNode)"
      using d(3) f m(2) by (auto simp: last_action_job_def job_ids_def)
    ultimately show "x \<in> seen" using n'(1) Cons.prems(2) by blast
  qed
  have block: "deps_before seen (node_jobs registry all req node)"
    using node_block [of 0 node all seen pm req] first by (simp add: node_jobs_def pm)
  have ids: "job_ID ` set (node_jobs registry all req node) = set (job_ids node)"
    using node_jobs_ids [of registry node all req] pm by (metis option.distinct(1) set_map)
  have "deps_before (seen \<union> set (job_ids node)) (concat (map (node_jobs registry all req) suf))"
  proof (rule Cons.IH)
    show "all = (pre @ [node]) @ suf" using Cons.prems(1) by simp
    show "(\<Union>node \<in> set (pre @ [node]). set (job_ids node)) \<subseteq> seen \<union> set (job_ids node)"
      using Cons.prems(2) by auto
  qed
  with block ids show ?case by (simp add: deps_before_append)
qed

lemma generateJobs_well_formed:
  assumes "distinct (node_names nodes)" and "deps_sorted nodes"
    and "\<forall>node \<in> set nodes. registry (dn_Provider node) \<noteq> None"
    and "\<forall>node \<in> set nodes. plain_actions node"
  shows "distinct (map job_ID (generateJobs registry nodes req))
       \<and> (\<forall>i < length (generateJobs registry nodes req).
            \<forall>d \<in> set (job_DependsOn (generateJobs registry nodes req ! i)).
              \<exists>k < i. job_ID (generateJobs registry nodes req ! k) = d)"
proof -
  have "deps_before {} (generateJobs registry nodes req)"
    unfolding generateJobs_eq
    by (rule node_loop_deps_before [OF assms(1-3), of "[]"]) simp_all
  then have "\<forall>i < length (generateJobs registry nodes req).
            \<forall>d \<in> set (job_DependsOn (generateJobs registry nodes req ! i)).
              \<exists>k < i. job_ID (generateJobs registry nodes req ! k) = d"
    using deps_before_nth by blast
  moreover have "distinct (map job_ID (generateJobs registry nodes req))"
    using distinct_all_job_ids [OF assms(1,4)] generateJobs_ids [OF assms(3)] by simp
  ultimately show ?thesis by blast
qed

subsection \<open>The plan\<close>

lemma sorted_names:
  "set done \<subseteq> set (node_names nodes) \<Longrightarrow>
   node_names (map (node_of (gs_nodeMap (built nodes))) done) = done"
  unfolding node_names_def map_map
  by (rule map_idI) (use built_node_of in \<open>auto simp: node_names_def\<close>)

lemma sorted_subset:
  "set done \<subseteq> set (node_names nodes) \<Longrightarrow>
   set (map (node_of (gs_nodeMap (built nodes))) done) \<subseteq> set nodes"
  using built_node_of by auto

lemma sorted_deps_sorted:
  assumes t: "topo nodes done" and s: "set done = set (node_names nodes)"
  shows "deps_sorted (map (node_of (gs_nodeMap (built nodes))) done)"
  unfolding deps_sorted_def
proof (intro allI impI ballI)
  fix pre node post d
  let ?sorted = "map (node_of (gs_nodeMap (built nodes))) done"
  assume sp: "?sorted = pre @ node # post" and d: "d \<in> set (dn_Dependencies node)"
    and k: "d \<in> set (node_names ?sorted)"
  have n: "node_names ?sorted = done" using s by (simp add: sorted_names)
  then have dsp: "done = node_names pre @ dn_ComponentName node # node_names post"
    using sp by (simp add: node_names_def)
  have "node \<in> set ?sorted" using sp by simp
  then have m: "node \<in> set nodes" using sorted_subset [of "done" nodes] s by blast
  have "d \<in> set (all_deps nodes (dn_ComponentName node))"
    using m d by (auto simp: all_deps_def)
  moreover have "d \<in> set (node_names nodes)" using k n s by simp
  ultimately have "d \<in> set (changed_deps nodes (dn_ComponentName node))"
    by (simp add: changed_deps_def)
  then show "d \<in> set (node_names pre)" using t dsp unfolding topo_def by blast
qed

lemma expanded_plain: "expanded registry req node \<Longrightarrow> plain_actions node"
  using determineActions_names determineActions_no_dash
  by (auto simp: expanded_def plain_actions_def)

lemma GeneratePlan_Inr:
  assumes "GeneratePlan rt registry req intents = Inr plan"
  shows "plan_Jobs plan = []
       \<or> (\<exists>nodes sortedNodes.
            expandComponents registry (DetectChanges rt intents (ChangedFiles req)) intents req = Inr nodes
            \<and> buildDependencyGraph rt nodes = Inr sortedNodes
            \<and> plan_Jobs plan = generateJobs registry sortedNodes req)"
proof (cases "ChangedOnly req \<and> length (DetectChanges rt intents (ChangedFiles req)) = 0")
  case True
  then have "plan = createEmptyPlan rt req" using assms by (simp add: GeneratePlan_def Let_def)
  then show ?thesis by (simp add: createEmptyPlan_def)
next
  case False
  show ?thesis
  proof (cases "expandComponents registry (DetectChanges rt intents (ChangedFiles req)) intents req")
    case (Inl e)
    then show ?thesis using assms False by (auto simp: GeneratePlan_def Let_def split: if_splits)
  next
    case (Inr nodes)
    show ?thesis
    proof (cases "buildDependencyGraph rt nodes")
      case (Inl e)
      then show ?thesis using assms False Inr
        by (auto simp: GeneratePlan_def Let_def split: if_splits)
    next
      case sorted: (Inr sortedNodes)
      then have "plan_Jobs plan = generateJobs registry sortedNodes req"
        using assms False Inr by (auto simp: GeneratePlan_def Let_def split: if_splits)
      then show ?thesis using Inr sorted by blast
    qed
  qed
qed

text \<open>
  C1. In every plan GeneratePlan returns, whatever the order in which the two ranges
  visit the keys of their maps, the job ids are pairwise distinct, and every entry of the
  dependsOn list of a job is the id of a job at a strictly smaller index of the jobs
  array.
\<close>

theorem GeneratePlan_jobs_well_formed:
  assumes "visits_each_key_once (range_changes rt)" and "visits_each_key_once (range_inDegree rt)"
    and "GeneratePlan rt registry req intents = Inr plan"
  shows "distinct (map job_ID (plan_Jobs plan))
       \<and> (\<forall>i < length (plan_Jobs plan). \<forall>d \<in> set (job_DependsOn (plan_Jobs plan ! i)).
            \<exists>k < i. job_ID (plan_Jobs plan ! k) = d)"
  using GeneratePlan_Inr [OF assms(3)]
proof
  assume "plan_Jobs plan = []"
  then show ?thesis by simp
next
  assume "\<exists>nodes sortedNodes.
            expandComponents registry (DetectChanges rt intents (ChangedFiles req)) intents req = Inr nodes
            \<and> buildDependencyGraph rt nodes = Inr sortedNodes
            \<and> plan_Jobs plan = generateJobs registry sortedNodes req"
  then obtain nodes sortedNodes where
    e: "expandComponents registry (DetectChanges rt intents (ChangedFiles req)) intents req = Inr nodes"
    and b: "buildDependencyGraph rt nodes = Inr sortedNodes"
    and j: "plan_Jobs plan = generateJobs registry sortedNodes req" by blast
  from buildDependencyGraph_sorted [OF assms(2) b] obtain "done" where
    s: "sortedNodes = map (node_of (gs_nodeMap (built nodes))) done"
    and d: "distinct done" and a: "set done = set (node_names nodes)" and t: "topo nodes done"
    by blast
  have ex: "\<forall>node \<in> set nodes. expanded registry req node"
    using expandComponents_nodes [OF e] by blast
  have sub: "set sortedNodes \<subseteq> set nodes" unfolding s using a by (intro sorted_subset) simp
  have 1: "distinct (node_names sortedNodes)" unfolding s using a d by (simp add: sorted_names)
  have 2: "deps_sorted sortedNodes" unfolding s using t a by (rule sorted_deps_sorted)
  have 3: "\<forall>node \<in> set sortedNodes. registry (dn_Provider node) \<noteq> None"
    using ex sub by (auto simp: expanded_def)
  have 4: "\<forall>node \<in> set sortedNodes. plain_actions node"
    using ex sub expanded_plain by blast
  show ?thesis unfolding j by (rule generateJobs_well_formed [OF 1 2 3 4])
qed

lemma ex_linear_plan:
  "(case GeneratePlan ex_runtime [''terraform'' \<mapsto> ex_tf] ex_plan_request [ex_intent] of
      Inl err \<Rightarrow> False
    | Inr plan \<Rightarrow>
        map (\<lambda>j. (job_ID j, job_DependsOn j)) (plan_Jobs plan)
        = [(''vpc-validate'', []), (''vpc-plan'', [''vpc-validate'']),
           (''eks-validate'', [''vpc-plan'']), (''eks-plan'', [''eks-validate''])])"
  by code_simp

theorem GeneratePlan_jobs_well_formed_witness:
  "visits_each_key_once (range_changes ex_runtime)
   \<and> visits_each_key_once (range_inDegree ex_runtime)
   \<and> (\<exists>plan. GeneratePlan ex_runtime [''terraform'' \<mapsto> ex_tf] ex_plan_request [ex_intent] = Inr plan
         \<and> map (\<lambda>j. (job_ID j, job_DependsOn j)) (plan_Jobs plan)
           = [(''vpc-validate'', []), (''vpc-plan'', [''vpc-validate'']),
              (''eks-validate'', [''vpc-plan'']), (''eks-plan'', [''eks-validate''])]
         \<and> distinct (map job_ID (plan_Jobs plan))
         \<and> (\<forall>i < length (plan_Jobs plan). \<forall>d \<in> set (job_DependsOn (plan_Jobs plan ! i)).
              \<exists>k < i. job_ID (plan_Jobs plan ! k) = d))"
proof -
  have v: "visits_each_key_once (range_changes ex_runtime)"
    "visits_each_key_once (range_inDegree ex_runtime)"
    by (simp_all add: ex_runtime_def visits_each_key_once_rev)
  from ex_linear_plan obtain plan where
    p: "GeneratePlan ex_runtime [''terraform'' \<mapsto> ex_tf] ex_plan_request [ex_intent] = Inr plan"
    and m: "map (\<lambda>j. (job_ID j, job_DependsOn j)) (plan_Jobs plan)
        = [(''vpc-validate'', []), (''vpc-plan'', [''vpc-validate'']),
           (''eks-validate'', [''vpc-plan'']), (''eks-plan'', [''eks-validate''])]"
    by (cases "GeneratePlan ex_runtime [''terraform'' \<mapsto> ex_tf] ex_plan_request [ex_intent]") auto
  note w = GeneratePlan_jobs_well_formed [OF v p]
  show ?thesis
    by (intro conjI exI [of _ plan])
       (rule v(1), rule v(2), rule p, rule m, rule w [THEN conjunct1], rule w [THEN conjunct2])
qed

end
